theory Spec2Isabelle
  imports Main "HOL-Library.Word" "HOL-Library.Sublist"
begin

section \<open>Cross-platform paths and references of the CMDS Eagle plugin\<close>

text \<open>
  This theory embeds the part of the plugin that translates absolute file paths between the
  registered computers, encodes and decodes them as file URLs, scans a note or its rendered
  view for such URLs, and rewrites the references to a file in all notes. Every function of
  the plugin keeps its name. Strings are lists of code units, an exception is a value
  \<open>Inl e\<close> of a sum type, a loop is a recursive function, and what the plugin reads from
  its host (settings, platform, vault, metadata cache) is a record passed to the function.
\<close>


section \<open>JavaScript strings\<close>

text \<open>
  A JavaScript string is a finite sequence of 16-bit code units. String literals of the
  plugin are written with \<open>js\<close>, which maps each character of an Isabelle string
  to the code unit of the same value.
\<close>

type_synonym jsstring = "16 word list"

definition js :: "string \<Rightarrow> jsstring" where
  "js s = map (\<lambda>c. of_nat (of_char c)) s"

text \<open>\<open>String.prototype.indexOf(pat)\<close>: the least index at which \<open>pat\<close> occurs
  (\<open>None\<close> for the result \<open>-1\<close>).\<close>

fun index_of :: "'a list \<Rightarrow> 'a list \<Rightarrow> nat option" where
  "index_of pat [] = (if pat = [] then Some 0 else None)"
| "index_of pat (c # s) =
     (if prefix pat (c # s) then Some 0 else map_option Suc (index_of pat s))"

text \<open>\<open>s.indexOf(pat, start)\<close>: the search starts at \<open>min start (length s)\<close>.\<close>

definition indexOf :: "'a list \<Rightarrow> 'a list \<Rightarrow> nat \<Rightarrow> nat option" where
  "indexOf s pat start =
     (let k = min start (length s) in map_option (\<lambda>i. i + k) (index_of pat (drop k s)))"

text \<open>\<open>s.includes(pat)\<close>.\<close>

definition includes_str :: "'a list \<Rightarrow> 'a list \<Rightarrow> bool" where
  "includes_str s pat = (index_of pat s \<noteq> None)"

definition startsWith :: "'a list \<Rightarrow> 'a list \<Rightarrow> bool" where
  "startsWith s pat = prefix pat s"

text \<open>\<open>s.replace(pat, rep)\<close> with a string pattern: the first occurrence only. Every
  replacement string the plugin passes is free of \<open>$\<close>, so no replacement pattern of
  JavaScript is involved.\<close>

definition replace_first :: "'a list \<Rightarrow> 'a list \<Rightarrow> 'a list \<Rightarrow> 'a list" where
  "replace_first s pat rep =
     (case index_of pat s of
        None \<Rightarrow> s
      | Some i \<Rightarrow> take i s @ rep @ drop (i + length pat) s)"

text \<open>\<open>s.split(sep)\<close> for a one-unit separator and \<open>xs.join(sep)\<close>.\<close>

fun split_str :: "'a \<Rightarrow> 'a list \<Rightarrow> 'a list list" where
  "split_str sep [] = [[]]"
| "split_str sep (c # s) =
     (if c = sep then [] # split_str sep s
      else (case split_str sep s of
              [] \<Rightarrow> [[c]]
            | seg # segs \<Rightarrow> (c # seg) # segs))"

fun join_str :: "'a \<Rightarrow> 'a list list \<Rightarrow> 'a list" where
  "join_str sep [] = []"
| "join_str sep [seg] = seg"
| "join_str sep (seg # segs) = seg @ sep # join_str sep segs"

section \<open>Percent-encoding: the built-ins decodeURIComponent and encodeURIComponent\<close>

text \<open>
  The plugin calls the two built-ins of the language; they are modelled after the
  \<open>Decode\<close> and \<open>Encode\<close> operations of ECMA-262. Both throw \<open>URIError\<close>.
\<close>

datatype js_error = URIError

definition hexval :: "16 word \<Rightarrow> nat option" where
  "hexval c =
     (let n = unat c in
      if 48 \<le> n \<and> n \<le> 57 then Some (n - 48)
      else if 65 \<le> n \<and> n \<le> 70 then Some (n - 55)
      else if 97 \<le> n \<and> n \<le> 102 then Some (n - 87)
      else None)"

text \<open>One escape \<open>%XY\<close> at the head of the string: its octet and the rest.\<close>

fun read_escape :: "jsstring \<Rightarrow> (nat \<times> jsstring) option" where
  "read_escape (c # h1 # h2 # rest) =
     (if c = 0x25 then
        (case hexval h1 of
           None \<Rightarrow> None
         | Some a \<Rightarrow> (case hexval h2 of None \<Rightarrow> None | Some b \<Rightarrow> Some (16 * a + b, rest)))
      else None)"
| "read_escape _ = None"

fun read_continuations :: "nat \<Rightarrow> jsstring \<Rightarrow> (nat list \<times> jsstring) option" where
  "read_continuations 0 s = Some ([], s)"
| "read_continuations (Suc j) s =
     (case read_escape s of
        None \<Rightarrow> None
      | Some (b, r) \<Rightarrow>
          (case read_continuations j r of
             None \<Rightarrow> None
           | Some (bs, r') \<Rightarrow> Some (b # bs, r')))"

text \<open>The number of leading 1 bits of an octet (5 stands for "more than four").\<close>

definition leading_ones :: "nat \<Rightarrow> nat" where
  "leading_ones b =
     (if b < 0x80 then 0 else if b < 0xC0 then 1 else if b < 0xE0 then 2
      else if b < 0xF0 then 3 else if b < 0xF8 then 4 else 5)"

definition continuation :: "nat \<Rightarrow> bool" where
  "continuation b = (0x80 \<le> b \<and> b < 0xC0)"

text \<open>The code point of a multi-octet sequence, when the octets are a valid UTF-8
  encoding: continuation octets of the form 10xxxxxx, no overlong form, no surrogate,
  nothing above U+10FFFF.\<close>

fun utf8_value :: "nat list \<Rightarrow> nat option" where
  "utf8_value [b0, b1] =
     (let v = (b0 - 0xC0) * 64 + (b1 - 0x80) in
      if continuation b1 \<and> 0x80 \<le> v then Some v else None)"
| "utf8_value [b0, b1, b2] =
     (let v = (b0 - 0xE0) * 4096 + (b1 - 0x80) * 64 + (b2 - 0x80) in
      if continuation b1 \<and> continuation b2 \<and> 0x800 \<le> v \<and> \<not> (0xD800 \<le> v \<and> v < 0xE000)
      then Some v else None)"
| "utf8_value [b0, b1, b2, b3] =
     (let v = (b0 - 0xF0) * 262144 + (b1 - 0x80) * 4096 + (b2 - 0x80) * 64 + (b3 - 0x80) in
      if continuation b1 \<and> continuation b2 \<and> continuation b3 \<and> 0x10000 \<le> v \<and> v < 0x110000
      then Some v else None)"
| "utf8_value _ = None"

definition utf16_encode :: "nat \<Rightarrow> jsstring" where
  "utf16_encode v =
     (if v < 0x10000 then [of_nat v]
      else [of_nat (0xD800 + (v - 0x10000) div 1024), of_nat (0xDC00 + (v - 0x10000) mod 1024)])"

lemma read_escape_length:
  "read_escape s = Some (b, r) \<Longrightarrow> length s = length r + 3"
  by (cases s rule: read_escape.cases) (auto split: if_splits option.splits)

lemma read_continuations_length:
  "read_continuations n s = Some (bs, r) \<Longrightarrow> length s = length r + 3 * n \<and> length bs = n"
proof (induction n arbitrary: s bs r)
  case 0
  then show ?case by simp
next
  case (Suc n)
  then show ?case
    by (auto split: option.splits prod.splits dest!: read_escape_length)
qed

function decodeURIComponent :: "jsstring \<Rightarrow> js_error + jsstring" where
  "decodeURIComponent [] = Inr []"
| "decodeURIComponent (c # s) =
     (if c \<noteq> 0x25 then
        (case decodeURIComponent s of Inl e \<Rightarrow> Inl e | Inr r \<Rightarrow> Inr (c # r))
      else
        (case read_escape (c # s) of
           None \<Rightarrow> Inl URIError
         | Some (b, rest) \<Rightarrow>
             if leading_ones b = 0 then
               (case decodeURIComponent rest of
                  Inl e \<Rightarrow> Inl e
                | Inr r \<Rightarrow> Inr (of_nat b # r))
             else if leading_ones b = 1 \<or> 4 < leading_ones b then Inl URIError
             else
               (case read_continuations (leading_ones b - 1) rest of
                  None \<Rightarrow> Inl URIError
                | Some (bs, rest') \<Rightarrow>
                    (case utf8_value (b # bs) of
                       None \<Rightarrow> Inl URIError
                     | Some v \<Rightarrow>
                         (case decodeURIComponent rest' of
                            Inl e \<Rightarrow> Inl e
                          | Inr r \<Rightarrow> Inr (utf16_encode v @ r))))))"
  by pat_completeness auto
termination
proof (relation "measure length", goal_cases)
  case 1
  show ?case by simp
next
  case (2 c s)
  then show ?case by simp
next
  case (3 c s x b rest)
  then show ?case by (auto dest!: read_escape_length)
next
  case (4 c s x b rest y bs rest' v)
  then show ?case
    by (auto dest!: read_escape_length read_continuations_length)
qed


declare decodeURIComponent.simps [simp del]

text \<open>\<open>Encode\<close> with the unreserved set of \<open>encodeURIComponent\<close>: letters, digits
  and \<open>- _ . ! ~ * ' ( )\<close> are kept, every other code point is written as the escapes of
  its UTF-8 octets, and an unpaired surrogate throws.\<close>

definition uriUnreserved :: "16 word \<Rightarrow> bool" where
  "uriUnreserved c =
     (let n = unat c in
      (65 \<le> n \<and> n \<le> 90) \<or> (97 \<le> n \<and> n \<le> 122) \<or> (48 \<le> n \<and> n \<le> 57)
      \<or> n \<in> {45, 95, 46, 33, 126, 42, 39, 40, 41})"

definition hexdigit :: "nat \<Rightarrow> 16 word" where
  "hexdigit d = (if d < 10 then of_nat (48 + d) else of_nat (55 + d))"

definition percent_octet :: "nat \<Rightarrow> jsstring" where
  "percent_octet b = [0x25, hexdigit (b div 16), hexdigit (b mod 16)]"

definition utf8_octets :: "nat \<Rightarrow> nat list" where
  "utf8_octets v =
     (if v < 0x80 then [v]
      else if v < 0x800 then [0xC0 + v div 64, 0x80 + v mod 64]
      else if v < 0x10000 then [0xE0 + v div 4096, 0x80 + (v div 64) mod 64, 0x80 + v mod 64]
      else [0xF0 + v div 262144, 0x80 + (v div 4096) mod 64, 0x80 + (v div 64) mod 64,
            0x80 + v mod 64])"

definition leading_surrogate :: "16 word \<Rightarrow> bool" where
  "leading_surrogate c = (0xD800 \<le> unat c \<and> unat c < 0xDC00)"

definition trailing_surrogate :: "16 word \<Rightarrow> bool" where
  "trailing_surrogate c = (0xDC00 \<le> unat c \<and> unat c < 0xE000)"

definition surrogate_pair_value :: "16 word \<Rightarrow> 16 word \<Rightarrow> nat" where
  "surrogate_pair_value c d = (unat c - 0xD800) * 1024 + (unat d - 0xDC00) + 0x10000"

definition escape_code_point :: "nat \<Rightarrow> jsstring" where
  "escape_code_point v = concat (map percent_octet (utf8_octets v))"

fun encodeURIComponent :: "jsstring \<Rightarrow> js_error + jsstring" where
  "encodeURIComponent [] = Inr []"
| "encodeURIComponent (c # s) =
     (if uriUnreserved c then
        (case encodeURIComponent s of Inl e \<Rightarrow> Inl e | Inr r \<Rightarrow> Inr (c # r))
      else if \<not> leading_surrogate c \<and> \<not> trailing_surrogate c then
        (case encodeURIComponent s of
           Inl e \<Rightarrow> Inl e
         | Inr r \<Rightarrow> Inr (escape_code_point (unat c) @ r))
      else if trailing_surrogate c then Inl URIError
      else
        (case s of
           [] \<Rightarrow> Inl URIError
         | d # s' \<Rightarrow>
             if trailing_surrogate d then
               (case encodeURIComponent s' of
                  Inl e \<Rightarrow> Inl e
                | Inr r \<Rightarrow> Inr (escape_code_point (surrogate_pair_value c d) @ r))
             else Inl URIError))"

section \<open>The multi-pass decode loop\<close>

text \<open>
  \<open>fullyDecodeUri\<close> and \<open>pathToFileUrl\<close> contain the same loop:
  \<^verbatim>\<open>while (decoded.includes('%')) {
    const next = decodeURIComponent(decoded);
    if (next === decoded) break;
    decoded = next; }\<close>
  inside a \<open>try\<close>. One evaluation of the loop test and body either leaves the loop with
  the current string, throws, or continues with the next string.
\<close>

datatype loop_state = Continue jsstring | Return jsstring | Thrown js_error

definition decode_iteration :: "jsstring \<Rightarrow> loop_state" where
  "decode_iteration decoded =
     (if includes_str decoded (js ''%'') then
        (case decodeURIComponent decoded of
           Inl e \<Rightarrow> Thrown e
         | Inr next \<Rightarrow> if next = decoded then Return decoded else Continue next)
      else Return decoded)"

text \<open>The loop with a bound on the number of iterations: \<open>Continue\<close> is returned when
  the bound is used up before the loop is left.\<close>

fun run_iterations :: "nat \<Rightarrow> jsstring \<Rightarrow> loop_state" where
  "run_iterations 0 decoded = Continue decoded"
| "run_iterations (Suc n) decoded =
     (case decode_iteration decoded of
        Continue next \<Rightarrow> run_iterations n next
      | Return d \<Rightarrow> Return d
      | Thrown e \<Rightarrow> Thrown e)"

lemma utf16_encode_length: "length (utf16_encode v) \<le> 2"
  by (simp add: utf16_encode_def)

lemma decode_shortens:
  "decodeURIComponent s = Inr t \<Longrightarrow> length t \<le> length s \<and> (length t = length s \<longrightarrow> t = s)"
proof (induction "length s" arbitrary: s t rule: less_induct)
  case less
  show ?case
  proof (cases s)
    case Nil
    with less.prems show ?thesis by (simp add: decodeURIComponent.simps)
  next
    case (Cons c s')
    show ?thesis
    proof (cases "c \<noteq> 0x25")
      case True
      with less.prems Cons obtain r where r: "decodeURIComponent s' = Inr r" "t = c # r"
        by (auto simp: decodeURIComponent.simps split: sum.splits)
      from less.hyps[OF _ r(1)] Cons r(2) show ?thesis by auto
    next
      case False
      then have c: "c = 0x25" by simp
      from less.prems c Cons obtain b rest where re: "read_escape (c # s') = Some (b, rest)"
        by (auto simp: decodeURIComponent.simps split: option.splits)
      have len: "length s = length rest + 3" using read_escape_length[OF re] Cons by simp
      show ?thesis
      proof (cases "leading_ones b = 0")
        case True
        with less.prems c re Cons obtain r
          where r: "decodeURIComponent rest = Inr r" "t = of_nat b # r"
          by (auto simp: decodeURIComponent.simps split: sum.splits)
        from less.hyps[OF _ r(1)] len have "length r \<le> length rest" by simp
        with len r show ?thesis by auto
      next
        case False
        with less.prems c re Cons obtain bs rest' v r where
          rc: "read_continuations (leading_ones b - 1) rest = Some (bs, rest')" and
          r: "decodeURIComponent rest' = Inr r" "t = utf16_encode v @ r"
          by (auto simp: decodeURIComponent.simps split: sum.splits option.splits if_splits)
        from read_continuations_length[OF rc]
        have len': "length rest = length rest' + 3 * (leading_ones b - 1)"
          by simp
        from less.hyps[OF _ r(1)] len len' have "length r \<le> length rest'" by simp
        with len len' r utf16_encode_length[of v] show ?thesis by auto
      qed
    qed
  qed
qed

lemma decode_iteration_shortens:
  "decode_iteration s = Continue t \<Longrightarrow> length t < length s"
  using decode_shortens[of s t]
  by (auto simp: decode_iteration_def split: if_splits sum.splits)

function decode_loop :: "jsstring \<Rightarrow> js_error + jsstring" where
  "decode_loop decoded =
     (case decode_iteration decoded of
        Continue next \<Rightarrow> decode_loop next
      | Return d \<Rightarrow> Inr d
      | Thrown e \<Rightarrow> Inl e)"
  by pat_completeness auto
termination
  by (relation "measure length") (auto dest: decode_iteration_shortens)

declare decode_loop.simps [simp del]

text \<open>\<open>fullyDecodeUri\<close>: the \<open>catch\<close> clause returns the argument \<open>str\<close>.\<close>

definition fullyDecodeUri :: "jsstring \<Rightarrow> jsstring" where
  "fullyDecodeUri str = (case decode_loop str of Inl e \<Rightarrow> str | Inr decoded \<Rightarrow> decoded)"

text \<open>\<open>n\<close> successive passes of \<open>decodeURIComponent\<close>.\<close>

fun decode_passes :: "nat \<Rightarrow> jsstring \<Rightarrow> js_error + jsstring" where
  "decode_passes 0 s = Inr s"
| "decode_passes (Suc n) s =
     (case decodeURIComponent s of Inl e \<Rightarrow> Inl e | Inr t \<Rightarrow> decode_passes n t)"

section \<open>The regular expressions built from profile names\<close>

text \<open>
  The plugin builds its Windows patterns with \<open>new RegExp(..., 'i')\<close> from pieces of
  fixed width: the class \<open>[A-Za-z]\<close>, the class \<open>[/\\]\<close> and literal characters. Such a
  pattern is a list of atoms, one per matched code unit. The user name and the sub-path are
  spliced into the pattern source as they are; the model reads each of their code units as
  a literal, which is what the regular expression does for names made of code units below
  128 that are not regular-expression syntax (see \<open>regex_literal\<close>). With the flag
  \<open>i\<close> two code units below 128 match when they are equal up to the case of a letter;
  a code unit from 128 on never matches one below 128.
\<close>

datatype atom = AnyLetter | Sep | Lit "16 word"

definition ascii_letter :: "16 word \<Rightarrow> bool" where
  "ascii_letter c = ((65 \<le> unat c \<and> unat c \<le> 90) \<or> (97 \<le> unat c \<and> unat c \<le> 122))"

definition separator :: "16 word \<Rightarrow> bool" where
  "separator c = (c = 0x2F \<or> c = 0x5C)"

definition canonicalize :: "16 word \<Rightarrow> 16 word" where
  "canonicalize c = (if 97 \<le> unat c \<and> unat c \<le> 122 then c - 32 else c)"

fun atom_match :: "atom \<Rightarrow> 16 word \<Rightarrow> bool" where
  "atom_match AnyLetter c = ascii_letter c"
| "atom_match Sep c = separator c"
| "atom_match (Lit p) c = (canonicalize p = canonicalize c)"

text \<open>A match of the whole pattern at the start of the string (a pattern anchored
  with \<open>^\<close>).\<close>

fun match_here :: "atom list \<Rightarrow> jsstring \<Rightarrow> bool" where
  "match_here [] s = True"
| "match_here (a # as) [] = False"
| "match_here (a # as) (c # s) = (atom_match a c \<and> match_here as s)"

text \<open>The index of the leftmost match of an unanchored pattern.\<close>

fun regex_search :: "atom list \<Rightarrow> jsstring \<Rightarrow> nat option" where
  "regex_search as [] = (if match_here as [] then Some 0 else None)"
| "regex_search as (c # s) =
     (if match_here as (c # s) then Some 0 else map_option Suc (regex_search as s))"

definition regex_test :: "atom list \<Rightarrow> jsstring \<Rightarrow> bool" where
  "regex_test as s = (regex_search as s \<noteq> None)"

text \<open>\<open>s.replace(pattern, '')\<close> without the flag \<open>g\<close>: the leftmost match is removed.\<close>

definition regex_remove_first :: "atom list \<Rightarrow> jsstring \<Rightarrow> jsstring" where
  "regex_remove_first as s =
     (case regex_search as s of
        None \<Rightarrow> s
      | Some i \<Rightarrow> take i s @ drop (i + length as) s)"

definition literal :: "jsstring \<Rightarrow> atom list" where
  "literal s = map Lit s"

text \<open>The code units that a pattern source reads as themselves, under the flag \<open>i\<close>
  exactly as the model does: below 128 and none of \<open>\ ^ $ . * + ? ( ) [ ] { } |\<close>.\<close>

definition regex_literal :: "jsstring \<Rightarrow> bool" where
  "regex_literal s =
     list_all (\<lambda>c. unat c < 128 \<and>
        unat c \<notin> {92, 94, 36, 46, 42, 43, 63, 40, 41, 91, 93, 123, 125, 124}) s"

section \<open>Computer profiles, settings and the running machine\<close>

text \<open>
  Modelled from the spec: the declarations of \<open>PlatformType\<close>, \<open>ComputerProfile\<close> and the
  settings are not among the source files. A profile has the fields of the data model of the
  specification (id, display name, platform, user name, sub-path, current-computer flag),
  under the names of the object that the settings tab creates for a new profile, which also
  has \<open>eagleLibraryPath\<close>. \<open>PlatformType\<close> is the type of \<open>process.platform\<close> after a
  cast; the code compares it with \<open>'darwin'\<close> and \<open>'win32'\<close> only, and every other value
  takes the \<open>else\<close> branches.
\<close>

datatype PlatformType = darwin | win32 | other_platform

record ComputerProfile =
  profile_id :: jsstring
  profile_name :: jsstring
  platform :: PlatformType
  username :: jsstring
  subPath :: jsstring
  eagleLibraryPath :: jsstring
  isCurrentComputer :: bool

text \<open>The settings the path functions read, with what they read from the process and
  from the vault adapter (\<open>basePath\<close> is optional there).\<close>

record plugin =
  enableCrossPlatform :: bool
  computers :: "ComputerProfile list"
  process_platform :: PlatformType
  basePath :: "jsstring option"
  configDir :: jsstring

definition getCurrentPlatform :: "plugin \<Rightarrow> PlatformType" where
  "getCurrentPlatform p = process_platform p"

definition getVaultPath :: "plugin \<Rightarrow> jsstring" where
  "getVaultPath p =
     (case basePath p of
        Some b \<Rightarrow> if b \<noteq> [] then b else replace_first (configDir p) (js ''/.obsidian'') []
      | None \<Rightarrow> replace_first (configDir p) (js ''/.obsidian'') [])"

text \<open>\<open>getCurrentUsername\<close>: the first capture of \<open>/^\/Users\/([^/]+)/\<close> on macOS and of
  \<open>/^[A-Za-z]:[/\\]Users[/\\]([^/\\]+)/i\<close> on Windows, the empty string otherwise.\<close>

definition getCurrentUsername :: "plugin \<Rightarrow> jsstring" where
  "getCurrentUsername p =
     (let vaultPath = getVaultPath p in
      if getCurrentPlatform p = darwin then
        (if startsWith vaultPath (js ''/Users/'')
         then takeWhile (\<lambda>c. c \<noteq> 0x2F) (drop 7 vaultPath) else [])
      else if getCurrentPlatform p = win32 then
        (if match_here ([AnyLetter, Lit 0x3A, Sep] @ literal (js ''Users'') @ [Sep]) vaultPath
         then takeWhile (\<lambda>c. \<not> separator c) (drop 9 vaultPath) else [])
      else [])"

text \<open>The two patterns of the classifier.\<close>

definition macPattern :: "jsstring \<Rightarrow> jsstring" where
  "macPattern user = js ''/Users/'' @ user @ js ''/''"

definition winPattern :: "jsstring \<Rightarrow> atom list" where
  "winPattern user =
     [AnyLetter, Lit 0x3A, Sep] @ literal (js ''Users'') @ [Sep] @ literal user @ [Sep]"

fun differentPlatformLoop :: "PlatformType \<Rightarrow> jsstring \<Rightarrow> jsstring \<Rightarrow> ComputerProfile list \<Rightarrow> bool" where
  "differentPlatformLoop currentPlatform currentUsername path [] = False"
| "differentPlatformLoop currentPlatform currentUsername path (computer # rest) =
     (if platform computer = currentPlatform \<and> username computer = currentUsername
      then differentPlatformLoop currentPlatform currentUsername path rest
      else if platform computer = darwin then
        (if includes_str path (macPattern (username computer)) then True
         else differentPlatformLoop currentPlatform currentUsername path rest)
      else if platform computer = win32 then
        (if regex_test (winPattern (username computer)) path then True
         else differentPlatformLoop currentPlatform currentUsername path rest)
      else differentPlatformLoop currentPlatform currentUsername path rest)"

definition isPathFromDifferentPlatform :: "plugin \<Rightarrow> jsstring \<Rightarrow> bool" where
  "isPathFromDifferentPlatform p path =
     differentPlatformLoop (getCurrentPlatform p) (getCurrentUsername p) path (computers p)"

text \<open>In \<open>findMatchingComputer\<close> the Windows pattern is anchored with \<open>^\<close>.\<close>

fun matchingComputerLoop :: "jsstring \<Rightarrow> ComputerProfile list \<Rightarrow> ComputerProfile option" where
  "matchingComputerLoop path [] = None"
| "matchingComputerLoop path (computer # rest) =
     (if platform computer = darwin then
        (if includes_str path (macPattern (username computer)) then Some computer
         else matchingComputerLoop path rest)
      else if platform computer = win32 then
        (if match_here (winPattern (username computer)) path then Some computer
         else matchingComputerLoop path rest)
      else matchingComputerLoop path rest)"

definition findMatchingComputer :: "plugin \<Rightarrow> jsstring \<Rightarrow> ComputerProfile option" where
  "findMatchingComputer p path =
     (if \<not> enableCrossPlatform p then None
      else if computers p = [] then None
      else matchingComputerLoop path (computers p))"

definition backslashes_to_slashes :: "jsstring \<Rightarrow> jsstring" where
  "backslashes_to_slashes s = map (\<lambda>c. if c = 0x5C then 0x2F else c) s"

text \<open>The root of a profile's paths, as \<open>convertPathForCurrentPlatform\<close> builds it for
  the source (a string on macOS, a pattern otherwise) and for the target.\<close>

definition macRoot :: "jsstring \<Rightarrow> jsstring \<Rightarrow> jsstring" where
  "macRoot user sub =
     (if sub \<noteq> [] then js ''/Users/'' @ user @ js ''/'' @ sub @ js ''/''
      else js ''/Users/'' @ user @ js ''/'')"

definition winSourcePattern :: "jsstring \<Rightarrow> jsstring \<Rightarrow> atom list" where
  "winSourcePattern user sub =
     (let subPathPart =
            (if sub \<noteq> [] then Sep # map (\<lambda>c. if separator c then Sep else Lit c) sub else [])
      in [AnyLetter, Lit 0x3A, Sep] @ literal (js ''Users'') @ [Sep] @ literal user
           @ subPathPart @ [Sep])"

definition winTargetRoot :: "jsstring \<Rightarrow> jsstring \<Rightarrow> jsstring" where
  "winTargetRoot user sub =
     (if sub \<noteq> [] then js ''C:/Users/'' @ user @ js ''/'' @ sub @ js ''/''
      else js ''C:/Users/'' @ user @ js ''/'')"

definition relativePath :: "ComputerProfile \<Rightarrow> jsstring \<Rightarrow> jsstring" where
  "relativePath sourceComputer path =
     (if platform sourceComputer = darwin
      then replace_first path (macRoot (username sourceComputer) (subPath sourceComputer)) []
      else backslashes_to_slashes
             (regex_remove_first
                (winSourcePattern (username sourceComputer) (subPath sourceComputer)) path))"

definition convertPathForCurrentPlatform :: "plugin \<Rightarrow> jsstring \<Rightarrow> jsstring" where
  "convertPathForCurrentPlatform p path =
     (if \<not> enableCrossPlatform p then path
      else if computers p = [] then path
      else
        (case findMatchingComputer p path of
           None \<Rightarrow> path
         | Some sourceComputer \<Rightarrow>
             (case find (\<lambda>c. platform c = getCurrentPlatform p
                               \<and> username c = getCurrentUsername p) (computers p) of
                None \<Rightarrow> path
              | Some currentComputer \<Rightarrow>
                  if profile_id sourceComputer = profile_id currentComputer then path
                  else if platform currentComputer = darwin
                  then macRoot (username currentComputer) (subPath currentComputer)
                         @ relativePath sourceComputer path
                  else winTargetRoot (username currentComputer) (subPath currentComputer)
                         @ relativePath sourceComputer path)))"


section \<open>Encoding a path as a file URL\<close>

text \<open>\<open>normalizedPath.split('/').map(segment => encodeURIComponent(segment))\<close>: the first
  segment that cannot be encoded throws.\<close>

fun encode_segments :: "jsstring list \<Rightarrow> js_error + jsstring list" where
  "encode_segments [] = Inr []"
| "encode_segments (segment # segments) =
     (case encodeURIComponent segment of
        Inl e \<Rightarrow> Inl e
      | Inr enc \<Rightarrow>
          (case encode_segments segments of
             Inl e \<Rightarrow> Inl e
           | Inr encs \<Rightarrow> Inr (enc # encs)))"

text \<open>The local \<open>normalizedPath\<close> of \<open>pathToFileUrl\<close>: the argument after the decode
  loop (whose \<open>catch\<close> restores the argument), the translation to the current computer and
  the replacement of every backslash.\<close>

definition normalizedPath :: "plugin \<Rightarrow> jsstring \<Rightarrow> jsstring" where
  "normalizedPath p path =
     (let decodedPath = (case decode_loop path of Inl e \<Rightarrow> path | Inr decoded \<Rightarrow> decoded);
          convertedPath = convertPathForCurrentPlatform p decodedPath
      in backslashes_to_slashes convertedPath)"

text \<open>\<open>/^[A-Za-z]:/.test(s)\<close> and \<open>s.replace(/^([A-Za-z])%3A/, '$1:')\<close>.\<close>

fun drive_prefixed :: "jsstring \<Rightarrow> bool" where
  "drive_prefixed (l # c # rest) = (ascii_letter l \<and> c = 0x3A)"
| "drive_prefixed _ = False"

fun restore_drive_colon :: "jsstring \<Rightarrow> jsstring" where
  "restore_drive_colon (l # a # b # c # rest) =
     (if ascii_letter l \<and> a = 0x25 \<and> b = 0x33 \<and> c = 0x41 then l # 0x3A # rest
      else l # a # b # c # rest)"
| "restore_drive_colon s = s"

definition pathToFileUrl :: "plugin \<Rightarrow> jsstring \<Rightarrow> js_error + jsstring" where
  "pathToFileUrl p path =
     (case encode_segments (split_str 0x2F (normalizedPath p path)) of
        Inl e \<Rightarrow> Inl e
      | Inr segments \<Rightarrow>
          (let encodedPath = join_str 0x2F segments in
           if getCurrentPlatform p = win32 \<and> drive_prefixed (normalizedPath p path)
           then Inr (js ''file:///'' @ restore_drive_colon encodedPath)
           else Inr (js ''file://'' @ encodedPath)))"

section \<open>Reading a path out of a file URL\<close>

text \<open>
  The scan passes all read a path out of a URL with the same statements:
  \<^verbatim>\<open>let filePath = this.fullyDecodeUri(originalUrl.replace(/^file:\/\/\/?/, ''));
  if (filePath.startsWith('Users/') && !filePath.startsWith('/')) filePath = '/' + filePath;\<close>
\<close>

definition strip_file_scheme :: "jsstring \<Rightarrow> jsstring" where
  "strip_file_scheme url =
     (if startsWith url (js ''file:///'') then drop 8 url
      else if startsWith url (js ''file://'') then drop 7 url
      else url)"

definition restore_leading_slash :: "jsstring \<Rightarrow> jsstring" where
  "restore_leading_slash filePath =
     (if startsWith filePath (js ''Users/'') \<and> \<not> startsWith filePath (js ''/'')
      then 0x2F # filePath else filePath)"

definition fileUrlToPath :: "jsstring \<Rightarrow> jsstring" where
  "fileUrlToPath url = restore_leading_slash (fullyDecodeUri (strip_file_scheme url))"

section \<open>The scan pass in render mode\<close>

text \<open>An element is the map of its attributes; \<open>getAttribute\<close> gives \<open>None\<close> for
  \<open>null\<close>. A value is truthy when it is a non-empty string.\<close>

type_synonym element = "string \<rightharpoonup> jsstring"

definition truthy :: "jsstring option \<Rightarrow> bool" where
  "truthy v = (case v of None \<Rightarrow> False | Some s \<Rightarrow> s \<noteq> [])"

text \<open>The first capture of \<open>/^app:\/\/[^/]+\/(.+)$/\<close>: a dot matches every code unit
  that is not a line terminator.\<close>

definition line_terminator :: "16 word \<Rightarrow> bool" where
  "line_terminator c = (c = 0x0A \<or> c = 0x0D \<or> c = 0x2028 \<or> c = 0x2029)"

definition appMatch :: "jsstring \<Rightarrow> jsstring option" where
  "appMatch src =
     (if startsWith src (js ''app://'') then
        (let host = takeWhile (\<lambda>c. c \<noteq> 0x2F) (drop 6 src);
             after = dropWhile (\<lambda>c. c \<noteq> 0x2F) (drop 6 src)
         in case after of
              [] \<Rightarrow> None
            | slash # capture \<Rightarrow>
                if host \<noteq> [] \<and> capture \<noteq> [] \<and> \<not> list_ex line_terminator capture
                then Some capture else None)
      else None)"

definition extractPath :: "jsstring \<Rightarrow> jsstring option" where
  "extractPath src =
     (if startsWith src (js ''app://'') then map_option fullyDecodeUri (appMatch src)
      else if startsWith src (js ''file://'') then Some (fullyDecodeUri (strip_file_scheme src))
      else None)"

definition convertImageSrcForRendering :: "plugin \<Rightarrow> element \<Rightarrow> js_error + element" where
  "convertImageSrcForRendering p img =
     (case img ''src'' of
        None \<Rightarrow> Inr img
      | Some src \<Rightarrow>
          if src = [] then Inr img
          else if truthy (img ''data-xplatform-converted'') then Inr img
          else
            (case extractPath src of
               None \<Rightarrow> Inr img
             | Some extracted \<Rightarrow>
                 if extracted = [] then Inr img
                 else
                   (let extractedPath = restore_leading_slash extracted in
                    if isPathFromDifferentPlatform p extractedPath then
                      (let convertedPath = convertPathForCurrentPlatform p extractedPath in
                       if convertedPath \<noteq> extractedPath then
                         (case pathToFileUrl p convertedPath of
                            Inl e \<Rightarrow> Inl e
                          | Inr newSrc \<Rightarrow>
                              Inr (img(''src'' \<mapsto> newSrc,
                                       ''data-xplatform-converted'' \<mapsto> js ''true'',
                                       ''data-original-src'' \<mapsto> src)))
                       else Inr img)
                    else Inr img)))"

section \<open>The scan pass in content mode\<close>

text \<open>
  \<open>/!\[([^\]]*)\]\((file:\/\/[^)]+)\)/g\<close> matched at the start of a string: the second
  capture and what follows the match. Neither class can run over its closing character, so
  the greedy match is the only one.
\<close>

definition match_embed_here :: "jsstring \<Rightarrow> (jsstring \<times> jsstring) option" where
  "match_embed_here s =
     (if startsWith s (js ''!['') then
        (let after_alt = dropWhile (\<lambda>c. c \<noteq> 0x5D) (drop 2 s) in
         if startsWith after_alt (js ''](file://'') then
           (let body = takeWhile (\<lambda>c. c \<noteq> 0x29) (drop 9 after_alt);
                after_body = dropWhile (\<lambda>c. c \<noteq> 0x29) (drop 9 after_alt)
            in if body \<noteq> [] \<and> after_body \<noteq> []
               then Some (js ''file://'' @ body, tl after_body) else None)
         else None)
      else None)"

lemma match_embed_here_shorter:
  "match_embed_here s = Some (url, rest) \<Longrightarrow> length rest < length s"
proof -
  assume m: "match_embed_here s = Some (url, rest)"
  define a where "a = dropWhile (\<lambda>c. c \<noteq> 0x5D) (drop 2 s)"
  define b where "b = dropWhile (\<lambda>c. c \<noteq> 0x29) (drop 9 a)"
  from m have r: "rest = tl b" and ne: "b \<noteq> []"
    by (auto simp: match_embed_here_def Let_def a_def b_def split: if_splits)
  have "length b \<le> length (drop 9 a)"
    unfolding b_def by (rule length_dropWhile_le)
  moreover have "length a \<le> length (drop 2 s)"
    unfolding a_def by (rule length_dropWhile_le)
  ultimately have "length b \<le> length s" by simp
  with r ne show ?thesis by (cases b) auto
qed

text \<open>The successive results of \<open>fileUrlRegex.exec(content)\<close>: after a match the search
  goes on behind it, otherwise one code unit further.\<close>

function embedded_file_urls :: "jsstring \<Rightarrow> jsstring list" where
  "embedded_file_urls [] = []"
| "embedded_file_urls (c # s) =
     (case match_embed_here (c # s) of
        Some (url, rest) \<Rightarrow> url # embedded_file_urls rest
      | None \<Rightarrow> embedded_file_urls s)"
  by pat_completeness auto
termination
  by (relation "measure length") (auto dest: match_embed_here_shorter)

text \<open>The body of the \<open>while\<close> loop of \<open>convertCrossPlatformPaths\<close> for one match, on
  the pair of \<open>newContent\<close> and \<open>convertedCount\<close>.\<close>

definition convertOneUrl ::
  "plugin \<Rightarrow> jsstring \<Rightarrow> jsstring \<times> nat \<Rightarrow> js_error + jsstring \<times> nat" where
  "convertOneUrl p originalUrl state =
     (let filePath = fileUrlToPath originalUrl in
      if isPathFromDifferentPlatform p filePath then
        (case pathToFileUrl p (convertPathForCurrentPlatform p filePath) of
           Inl e \<Rightarrow> Inl e
         | Inr newUrl \<Rightarrow> Inr (replace_first (fst state) originalUrl newUrl, snd state + 1))
      else Inr state)"

fun convertUrls ::
  "plugin \<Rightarrow> jsstring list \<Rightarrow> jsstring \<times> nat \<Rightarrow> js_error + jsstring \<times> nat" where
  "convertUrls p [] state = Inr state"
| "convertUrls p (originalUrl # urls) state =
     (case convertOneUrl p originalUrl state of
        Inl e \<Rightarrow> Inl e
      | Inr state' \<Rightarrow> convertUrls p urls state')"

text \<open>The new content and the count of conversions that \<open>convertCrossPlatformPaths\<close>
  computes from the content of the active file.\<close>

definition convertContent :: "plugin \<Rightarrow> jsstring \<Rightarrow> js_error + jsstring \<times> nat" where
  "convertContent p content = convertUrls p (embedded_file_urls content) (content, 0)"

section \<open>The vault and the metadata cache\<close>

text \<open>
  What the plugin uses of the host: the files of the vault by path
  (\<open>getAbstractFileByPath\<close>, \<open>read\<close>, \<open>modify\<close>), the list of \<open>getMarkdownFiles\<close>, the embeds
  the metadata cache holds for a note, the link resolution \<open>getFirstLinkpathDest\<close> and the
  active file. A file is identified by its path, and reading or writing a file of the
  vault does not fail. Every call of \<open>vault.modify\<close> is recorded in \<open>modified\<close>, in
  order.
\<close>

datatype abstract_file = File jsstring | Folder

record embed =
  link :: jsstring
  original :: jsstring
  start_line :: nat
  start_col :: nat

record app =
  files :: "jsstring \<rightharpoonup> abstract_file"
  markdownFiles :: "jsstring list"
  embedsCache :: "jsstring \<rightharpoonup> embed list"
  firstLinkpathDest :: "jsstring \<Rightarrow> jsstring \<Rightarrow> jsstring option"
  activeFile :: "jsstring option"
  modified :: "(jsstring \<times> jsstring) list"

definition vault_modify :: "app \<Rightarrow> jsstring \<Rightarrow> jsstring \<Rightarrow> app" where
  "vault_modify a path content =
     a\<lparr>files := (files a)(path \<mapsto> File content), modified := modified a @ [(path, content)]\<rparr>"

text \<open>\<open>convertCrossPlatformPaths\<close>: the command on the active file. The file is written
  only when the count of conversions is positive.\<close>

definition convertCrossPlatformPaths :: "plugin \<Rightarrow> app \<Rightarrow> js_error + app" where
  "convertCrossPlatformPaths p a =
     (if \<not> enableCrossPlatform p then Inr a
      else
        (case activeFile a of
           None \<Rightarrow> Inr a
         | Some path \<Rightarrow>
             (case files a path of
                Some (File content) \<Rightarrow>
                  (case convertContent p content of
                     Inl e \<Rightarrow> Inl e
                   | Inr (newContent, convertedCount) \<Rightarrow>
                       if 0 < convertedCount then Inr (vault_modify a path newContent)
                       else Inr a)
              | _ \<Rightarrow> Inr a)))"

section \<open>Finding and rewriting the references to a file\<close>

record position =
  pos_line :: nat
  pos_ch :: nat
  pos_text :: jsstring

record reference =
  notePath :: jsstring
  positions :: "position list"

record TFile =
  file_path :: jsstring
  file_name :: jsstring
  basename :: jsstring

definition embed_position :: "embed \<Rightarrow> position" where
  "embed_position e = \<lparr>pos_line = start_line e, pos_ch = start_col e, pos_text = original e\<rparr>"

definition referencesInNote :: "app \<Rightarrow> TFile \<Rightarrow> jsstring \<Rightarrow> reference list" where
  "referencesInNote a targetFile note =
     (case embedsCache a note of
        None \<Rightarrow> []
      | Some embeds \<Rightarrow>
          (let hits = map embed_position
                 (filter (\<lambda>e. firstLinkpathDest a (link e) note = Some (file_path targetFile))
                    embeds)
           in if hits \<noteq> [] then [\<lparr>notePath = note, positions = hits\<rparr>] else []))"

definition findAllReferencesToFile :: "app \<Rightarrow> TFile \<Rightarrow> reference list" where
  "findAllReferencesToFile a targetFile =
     concat (map (referencesInNote a targetFile) (markdownFiles a))"

text \<open>The filter of \<open>offerToReplaceOtherReferences\<close>: in the active file the position
  equal to \<open>excludePosition\<close> is dropped, and a note left without a position is dropped.\<close>

definition keepPosition :: "app \<Rightarrow> jsstring \<Rightarrow> nat \<times> nat \<Rightarrow> position \<Rightarrow> bool" where
  "keepPosition a note excludePosition pos =
     (case activeFile a of
        None \<Rightarrow> True
      | Some active \<Rightarrow>
          if note = active
          then \<not> (pos_line pos = fst excludePosition \<and> pos_ch pos = snd excludePosition)
          else True)"

definition filterReference :: "app \<Rightarrow> nat \<times> nat \<Rightarrow> reference \<Rightarrow> reference list" where
  "filterReference a excludePosition ref =
     (let filteredPositions = filter (keepPosition a (notePath ref) excludePosition) (positions ref)
      in if filteredPositions \<noteq> []
         then [\<lparr>notePath = notePath ref, positions = filteredPositions\<rparr>] else [])"

definition filteredRefs :: "app \<Rightarrow> TFile \<Rightarrow> nat \<times> nat \<Rightarrow> reference list" where
  "filteredRefs a originalFile excludePosition =
     concat (map (filterReference a excludePosition) (findAllReferencesToFile a originalFile))"

text \<open>
  \<open>confirmReplaceReferences\<close> shows a notice for 10000 ms and resolves to true when the
  notice is clicked, to false when the timer of 10000 ms fires first. The only thing that
  decides the result is the time of the click, if there is one; the three arguments go into
  the text of the notice.
\<close>

definition confirmReplaceReferences :: "nat \<Rightarrow> nat \<Rightarrow> jsstring \<Rightarrow> nat option \<Rightarrow> bool" where
  "confirmReplaceReferences count fileCount filename click =
     (case click of None \<Rightarrow> False | Some t \<Rightarrow> t < 10000)"

text \<open>The comparison function of the sort, and the sort. \<open>Array.prototype.sort\<close> is
  stable, and the stably sorted arrangement of a list is unique; it is computed here by
  insertion.\<close>

definition comparePositions :: "position \<Rightarrow> position \<Rightarrow> int" where
  "comparePositions x y =
     (if pos_line x \<noteq> pos_line y then int (pos_line y) - int (pos_line x)
      else int (pos_ch y) - int (pos_ch x))"

fun insertPosition :: "position \<Rightarrow> position list \<Rightarrow> position list" where
  "insertPosition x [] = [x]"
| "insertPosition x (y # ys) =
     (if comparePositions x y \<le> 0 then x # y # ys else y # insertPosition x ys)"

definition sortedPositions :: "position list \<Rightarrow> position list" where
  "sortedPositions ps = foldr insertPosition ps []"

text \<open>The body of the inner loop of \<open>replaceAllReferences\<close>: one hit is replaced in the
  content, when its line exists and is not empty and the text is found from the column
  on.\<close>

definition replaceHit :: "jsstring \<Rightarrow> jsstring \<Rightarrow> position \<Rightarrow> jsstring" where
  "replaceHit newMarkdown content pos =
     (let lines = split_str 0x0A content in
      if pos_line pos < length lines then
        (let line = lines ! pos_line pos in
         if line \<noteq> [] then
           (case indexOf line (pos_text pos) (pos_ch pos) of
              None \<Rightarrow> content
            | Some index \<Rightarrow>
                join_str 0x0A
                  (lines[pos_line pos :=
                     take index line @ newMarkdown @ drop (index + length (pos_text pos)) line]))
         else content)
      else content)"

definition newMarkdownFor :: "TFile \<Rightarrow> jsstring \<Rightarrow> jsstring" where
  "newMarkdownFor originalFile newUrl =
     js ''!['' @ basename originalFile @ js '']('' @ newUrl @ js '')''"

definition rewriteContent :: "jsstring \<Rightarrow> position list \<Rightarrow> jsstring \<Rightarrow> jsstring" where
  "rewriteContent newMarkdown ps content =
     foldl (replaceHit newMarkdown) content (sortedPositions ps)"

text \<open>The body of the outer loop: a path that is not a file of the vault is skipped,
  otherwise the note is read, rewritten and written once.\<close>

definition replaceInNote :: "TFile \<Rightarrow> jsstring \<Rightarrow> app \<Rightarrow> reference \<Rightarrow> app" where
  "replaceInNote originalFile newUrl a ref =
     (case files a (notePath ref) of
        Some (File content) \<Rightarrow>
          vault_modify a (notePath ref)
            (rewriteContent (newMarkdownFor originalFile newUrl) (positions ref) content)
      | _ \<Rightarrow> a)"

definition replaceAllReferences :: "app \<Rightarrow> reference list \<Rightarrow> TFile \<Rightarrow> jsstring \<Rightarrow> app" where
  "replaceAllReferences a references originalFile newUrl =
     foldl (replaceInNote originalFile newUrl) a references"

definition offerToReplaceOtherReferences ::
  "app \<Rightarrow> TFile \<Rightarrow> jsstring \<Rightarrow> nat \<times> nat \<Rightarrow> nat option \<Rightarrow> app" where
  "offerToReplaceOtherReferences a originalFile newUrl excludePosition click =
     (let refs = filteredRefs a originalFile excludePosition in
      if refs = [] then a
      else
        (let totalCount = sum_list (map (\<lambda>ref. length (positions ref)) refs);
             fileCount = length refs
         in if confirmReplaceReferences totalCount fileCount (file_name originalFile) click
            then replaceAllReferences a refs originalFile newUrl
            else a))"

section \<open>Example data\<close>

text \<open>Profiles as the settings tab registers them, and a plugin whose cross-platform
  feature is enabled, on a given platform with a given vault path.\<close>

definition mac_profile :: "jsstring \<Rightarrow> jsstring \<Rightarrow> jsstring \<Rightarrow> ComputerProfile" where
  "mac_profile i user sub =
     \<lparr>profile_id = i, profile_name = js ''Mac'', platform = darwin, username = user,
      subPath = sub, eagleLibraryPath = [], isCurrentComputer = True\<rparr>"

definition win_profile :: "jsstring \<Rightarrow> jsstring \<Rightarrow> jsstring \<Rightarrow> ComputerProfile" where
  "win_profile i user sub =
     \<lparr>profile_id = i, profile_name = js ''Windows'', platform = win32, username = user,
      subPath = sub, eagleLibraryPath = [], isCurrentComputer = True\<rparr>"

definition plugin_on :: "PlatformType \<Rightarrow> jsstring \<Rightarrow> ComputerProfile list \<Rightarrow> plugin" where
  "plugin_on pf vault cs =
     \<lparr>enableCrossPlatform = True, computers = cs, process_platform = pf,
      basePath = Some vault, configDir = vault @ js ''/.obsidian''\<rparr>"

text \<open>A vault with two notes that embed the picture \<open>cat.png\<close>: the active note
  \<open>a.md\<close> once, in its second line at column 4, and the note \<open>b.md\<close> twice in its first
  line.\<close>

definition cat_embed :: "nat \<Rightarrow> nat \<Rightarrow> embed" where
  "cat_embed l c = \<lparr>link = js ''cat.png'', original = js ''![[cat.png]]'', start_line = l, start_col = c\<rparr>"

definition two_notes :: app where
  "two_notes =
     \<lparr>files = [js ''a.md'' \<mapsto> File (js ''intro'' @ [0x0A] @ js ''see ![[cat.png]] here''),
               js ''b.md'' \<mapsto> File (js ''![[cat.png]] and ![[cat.png]]''),
               js ''cat.png'' \<mapsto> File []],
      markdownFiles = [js ''a.md'', js ''b.md''],
      embedsCache = [js ''a.md'' \<mapsto> [cat_embed 1 4],
                     js ''b.md'' \<mapsto> [cat_embed 0 0, cat_embed 0 17]],
      firstLinkpathDest = (\<lambda>l source. if l = js ''cat.png'' then Some (js ''cat.png'') else None),
      activeFile = Some (js ''a.md''),
      modified = []\<rparr>"

definition cat_file :: TFile where
  "cat_file = \<lparr>file_path = js ''cat.png'', file_name = js ''cat.png'', basename = js ''cat''\<rparr>"

text \<open>A vault whose only note is the active file.\<close>

definition single_note :: "jsstring \<Rightarrow> app" where
  "single_note content =
     \<lparr>files = [js ''note.md'' \<mapsto> File content],
      markdownFiles = [js ''note.md''],
      embedsCache = Map.empty,
      firstLinkpathDest = (\<lambda>l source. None),
      activeFile = Some (js ''note.md''),
      modified = []\<rparr>"

section \<open>Observations on references and writes\<close>

text \<open>The hits of a list of references, each with its note, in order; and whether a path
  is a file of the vault.\<close>

definition hits :: "reference list \<Rightarrow> (jsstring \<times> position) list" where
  "hits refs = concat (map (\<lambda>ref. map (Pair (notePath ref)) (positions ref)) refs)"

definition is_file :: "app \<Rightarrow> jsstring \<Rightarrow> bool" where
  "is_file a path = (case files a path of Some (File content) \<Rightarrow> True | _ \<Rightarrow> False)"


text \<open>The recorded offset of a hit \<open>q\<close> is kept from one content to the next when the
  lines before the line of \<open>q\<close> are the same, and the text in front of the column of \<open>q\<close>
  in its line still stands at the start of that line: line and column of \<open>q\<close> point at the
  same place of the note.\<close>

definition offset_kept :: "jsstring \<Rightarrow> jsstring \<Rightarrow> position \<Rightarrow> bool" where
  "offset_kept content content' q =
     (take (pos_line q) (split_str 0x0A content') = take (pos_line q) (split_str 0x0A content) \<and>
      (if pos_line q < length (split_str 0x0A content)
       then pos_line q < length (split_str 0x0A content') \<and>
            prefix (take (pos_ch q) (split_str 0x0A content ! pos_line q))
                   (split_str 0x0A content' ! pos_line q)
       else True))"

text \<open>A path in the convention of a user: it starts with the macOS root of the user, or
  with a match of the Windows pattern of the user. \<open>off\<close> is the offset of \<open>/Users/\<close>
  in such a path, 0 or 2.\<close>

definition produced_under :: "jsstring \<Rightarrow> jsstring \<Rightarrow> nat \<Rightarrow> bool" where
  "produced_under user path off =
     (if off = 0 then prefix (macPattern user) path
      else if off = 2 then match_here (winPattern user) path
      else False)"

section \<open>Evaluation\<close>

text \<open>The definitions that the simplifier unfolds to run the model on a concrete input.\<close>

lemmas eval_defs =
  js_def includes_str_def startsWith_def replace_first_def indexOf_def
  hexval_def leading_ones_def continuation_def utf16_encode_def
  decodeURIComponent.simps uriUnreserved_def hexdigit_def percent_octet_def utf8_octets_def
  leading_surrogate_def trailing_surrogate_def surrogate_pair_value_def escape_code_point_def
  decode_iteration_def decode_loop.simps fullyDecodeUri_def
  ascii_letter_def separator_def canonicalize_def regex_test_def regex_remove_first_def
  literal_def getCurrentPlatform_def getVaultPath_def getCurrentUsername_def
  macPattern_def winPattern_def isPathFromDifferentPlatform_def findMatchingComputer_def
  backslashes_to_slashes_def macRoot_def winSourcePattern_def winTargetRoot_def
  relativePath_def convertPathForCurrentPlatform_def normalizedPath_def pathToFileUrl_def
  strip_file_scheme_def restore_leading_slash_def fileUrlToPath_def
  match_embed_here_def convertOneUrl_def convertContent_def
  mac_profile_def win_profile_def plugin_on_def Let_def

lemmas eval_refs =
  referencesInNote_def findAllReferencesToFile_def embed_position_def keepPosition_def
  filterReference_def filteredRefs_def comparePositions_def sortedPositions_def replaceHit_def
  newMarkdownFor_def rewriteContent_def replaceInNote_def replaceAllReferences_def
  vault_modify_def hits_def is_file_def cat_embed_def two_notes_def cat_file_def


section \<open>Properties of the decode loop\<close>

lemma index_of_unit: "(index_of [c] s = None) = (c \<notin> set s)"
  by (induction s) auto

lemma includes_str_unit: "includes_str s [c] = (c \<in> set s)"
  by (simp add: includes_str_def index_of_unit)

lemma js_percent: "js ''%'' = [0x25]"
  by (simp add: js_def)

lemma decode_no_percent: "0x25 \<notin> set s \<Longrightarrow> decodeURIComponent s = Inr s"
  by (induction s) (auto simp: decodeURIComponent.simps)

lemma decode_iteration_cases:
  "decode_iteration s = Continue t \<longleftrightarrow> decodeURIComponent s = Inr t \<and> t \<noteq> s"
  "decode_iteration s = Return d \<longleftrightarrow> d = s \<and> decodeURIComponent s = Inr s"
  "decode_iteration s = Thrown e \<longleftrightarrow> decodeURIComponent s = Inl e"
  using decode_no_percent[of s]
  by (auto simp: decode_iteration_def includes_str_unit js_percent split: sum.splits)

lemma run_iterations_enough:
  "length s \<le> n \<Longrightarrow>
   run_iterations (Suc n) s = (case decode_loop s of Inl e \<Rightarrow> Thrown e | Inr d \<Rightarrow> Return d)"
proof (induction n arbitrary: s)
  case 0
  then show ?case
    by (cases "decode_iteration s")
       (auto simp: decode_loop.simps[of s] decode_loop.simps[of "[]"]
             dest: decode_iteration_shortens)
next
  case (Suc n)
  show ?case
  proof (cases "decode_iteration s")
    case (Continue t)
    with Suc.prems decode_iteration_shortens[OF Continue] have "length t \<le> n" by simp
    from Suc.IH[OF this] Continue show ?thesis
      by (simp add: decode_loop.simps[of s])
  qed (simp_all add: decode_loop.simps[of s])
qed

text \<open>
  C10. The decode loop of \<open>fullyDecodeUri\<close> and \<open>pathToFileUrl\<close> terminates on every
  string. An iteration that does not leave the loop (by the fixed point, the missing percent
  sign or the exception) continues with a strictly shorter string, and so the loop is left
  after at most \<open>length s + 1\<close> evaluations of its test: run with that bound it ends in
  the result of the loop, never in \<open>Continue\<close>.
\<close>

theorem decode_loop_terminates:
  "(decode_iteration s = Continue t \<longrightarrow> length t < length s) \<and>
   run_iterations (Suc (length s)) s =
     (case decode_loop s of Inl e \<Rightarrow> Thrown e | Inr d \<Rightarrow> Return d)"
  using run_iterations_enough[of s "length s"] decode_iteration_shortens[of s t] by simp

theorem decode_loop_terminates_witness:
  "decode_iteration (js ''%2541'') = Continue (js ''%41'') \<and>
   length (js ''%41'') < length (js ''%2541'') \<and>
   run_iterations (Suc (length (js ''%2541''))) (js ''%2541'') = Return (js ''A'')"
proof -
  have a: "decode_iteration (js ''%2541'') = Continue (js ''%41'')" by code_simp
  have b: "decode_loop (js ''%2541'') = Inr (js ''A'')" by code_simp
  from decode_loop_terminates[of "js ''%2541''" "js ''%41''"] a b show ?thesis by simp
qed

lemma decode_passes_fixed: "decodeURIComponent s = Inr s \<Longrightarrow> decode_passes n s = Inr s"
  by (induction n) auto

lemma decode_loop_passes_Inr:
  "decode_passes n s = Inr r \<Longrightarrow> decodeURIComponent r = Inr r \<Longrightarrow> decode_loop s = Inr r"
proof (induction n arbitrary: s)
  case 0
  then have "decode_iteration s = Return s" by (simp add: decode_iteration_cases)
  with 0 show ?case by (subst decode_loop.simps) simp
next
  case (Suc n)
  then obtain t where t: "decodeURIComponent s = Inr t" "decode_passes n t = Inr r"
    by (auto split: sum.splits)
  show ?case
  proof (cases "t = s")
    case True
    with t decode_passes_fixed[of s n] have "r = s" by simp
    moreover from t True have "decode_iteration s = Return s"
      by (simp add: decode_iteration_cases)
    ultimately show ?thesis by (subst decode_loop.simps) simp
  next
    case False
    with t have "decode_iteration s = Continue t" by (simp add: decode_iteration_cases)
    with Suc.IH[OF t(2) Suc.prems(2)] show ?thesis
      by (simp add: decode_loop.simps[of s])
  qed
qed

lemma decode_loop_passes_Inl:
  "decode_passes n s = Inl e \<Longrightarrow> decode_loop s = Inl e"
proof (induction n arbitrary: s)
  case 0
  then show ?case by simp
next
  case (Suc n)
  show ?case
  proof (cases "decodeURIComponent s")
    case (Inl e')
    with Suc.prems have "decode_iteration s = Thrown e" by (simp add: decode_iteration_cases)
    then show ?thesis by (simp add: decode_loop.simps[of s])
  next
    case (Inr t)
    show ?thesis
    proof (cases "t = s")
      case True
      with Inr decode_passes_fixed[of s "Suc n"] Suc.prems show ?thesis by simp
    next
      case False
      with Inr have "decode_iteration s = Continue t" by (simp add: decode_iteration_cases)
      with Suc.IH[of t] Suc.prems Inr show ?thesis
        by (simp add: decode_loop.simps[of s])
    qed
  qed
qed

lemma decode_passes_end:
  "\<exists>n. (\<exists>r. decode_passes n s = Inr r \<and> decodeURIComponent r = Inr r)
       \<or> (\<exists>e. decode_passes n s = Inl e)"
proof (induction "length s" arbitrary: s rule: less_induct)
  case less
  show ?case
  proof (cases "decodeURIComponent s")
    case (Inl e)
    then have "decode_passes 1 s = Inl e" by simp
    then show ?thesis by blast
  next
    case (Inr t)
    show ?thesis
    proof (cases "t = s")
      case True
      with Inr have "decode_passes 0 s = Inr s \<and> decodeURIComponent s = Inr s" by simp
      then show ?thesis by blast
    next
      case False
      with decode_shortens[OF Inr] have "length t < length s" by auto
      from less[OF this] obtain n where
        "(\<exists>r. decode_passes n t = Inr r \<and> decodeURIComponent r = Inr r)
           \<or> (\<exists>e. decode_passes n t = Inl e)" by blast
      with Inr have
        "(\<exists>r. decode_passes (Suc n) s = Inr r \<and> decodeURIComponent r = Inr r)
           \<or> (\<exists>e. decode_passes (Suc n) s = Inl e)" by simp
      then show ?thesis by blast
    qed
  qed
qed

text \<open>
  C2, as the code has it. \<open>fullyDecodeUri\<close> percent-decodes pass after pass. When the
  passes reach a fixed point, that fixed point is returned. When a pass throws, the
  \<open>catch\<close> clause returns the argument of the call unchanged, the original string, and
  not the result of the last pass that succeeded. One of the two happens for every string.
\<close>

theorem fullyDecodeUri_fixed_point_or_original:
  "(decode_passes n s = Inr r \<and> decodeURIComponent r = Inr r \<longrightarrow> fullyDecodeUri s = r) \<and>
   (decode_passes n s = Inl e \<longrightarrow> fullyDecodeUri s = s) \<and>
   (\<exists>k. (\<exists>r'. decode_passes k s = Inr r' \<and> decodeURIComponent r' = Inr r')
        \<or> (\<exists>e'. decode_passes k s = Inl e'))"
  using decode_loop_passes_Inr[of n s r] decode_loop_passes_Inl[of n s e] decode_passes_end[of s]
  by (auto simp: fullyDecodeUri_def)

theorem fullyDecodeUri_fixed_point_or_original_witness:
  "decode_passes 2 (js ''%2541'') = Inr (js ''A'') \<and>
   decodeURIComponent (js ''A'') = Inr (js ''A'') \<and>
   fullyDecodeUri (js ''%2541'') = js ''A'' \<and>
   decode_passes 2 (js ''%25zz'') = Inl URIError \<and>
   fullyDecodeUri (js ''%25zz'') = js ''%25zz''"
proof -
  have a: "decode_passes 2 (js ''%2541'') = Inr (js ''A'')" by code_simp
  have b: "decodeURIComponent (js ''A'') = Inr (js ''A'')" by code_simp
  have c: "decode_passes 2 (js ''%25zz'') = Inl URIError" by code_simp
  from fullyDecodeUri_fixed_point_or_original[of 2 "js ''%2541''" "js ''A''"] a b
  have d: "fullyDecodeUri (js ''%2541'') = js ''A''" by blast
  from fullyDecodeUri_fixed_point_or_original[of 2 "js ''%25zz''" _ URIError] c
  have e: "fullyDecodeUri (js ''%25zz'') = js ''%25zz''" by blast
  from a b c d e show ?thesis by blast
qed

text \<open>The claim as the specification words it fails on \<open>%25zz\<close>: the first pass gives
  \<open>%zz\<close>, the second pass throws, and the result is the argument, not \<open>%zz\<close>.\<close>

theorem fullyDecodeUri_last_pass_counterexample:
  "decode_passes 1 (js ''%25zz'') = Inr (js ''%zz'') \<and>
   decode_passes 2 (js ''%25zz'') = Inl URIError \<and>
   fullyDecodeUri (js ''%25zz'') \<noteq> js ''%zz''"
  by code_simp

section \<open>Facts about the string operations\<close>

lemma js_Nil [simp]: "js [] = []" by (simp add: js_def)

lemma split_str_nonempty: "split_str sep s \<noteq> []"
  by (induction s) (auto split: list.splits)

lemma split_str_sep_free: "l \<in> set (split_str sep s) \<Longrightarrow> sep \<notin> set l"
proof (induction s arbitrary: l)
  case Nil
  then show ?case by simp
next
  case (Cons c s)
  then show ?case
    by (cases "split_str sep s") (auto split: if_splits)
qed

lemma split_str_no_sep: "sep \<notin> set s \<Longrightarrow> split_str sep s = [s]"
  by (induction s) auto

lemma split_str_append_sep:
  "split_str sep (x @ sep # r) = split_str sep x @ split_str sep r"
proof (induction x)
  case Nil
  show ?case by simp
next
  case (Cons c x)
  obtain seg segs where s: "split_str sep x = seg # segs"
    using split_str_nonempty[of sep x] by (cases "split_str sep x") auto
  with Cons show ?case by simp
qed

lemma split_join:
  "xs \<noteq> [] \<Longrightarrow> split_str sep (join_str sep xs) = concat (map (split_str sep) xs)"
proof (induction xs rule: join_str.induct)
  case (1 sep)
  then show ?case by simp
next
  case (2 sep seg)
  show ?case by simp
next
  case (3 sep seg v va)
  then show ?case by (simp add: split_str_append_sep)
qed

lemma concat_split_lines:
  "(\<forall>l \<in> set ls. sep \<notin> set l) \<Longrightarrow> concat (map (split_str sep) ls) = ls"
  by (induction ls) (auto simp: split_str_no_sep)

lemma split_join_update:
  assumes "L < length (split_str sep s)"
  shows "split_str sep (join_str sep ((split_str sep s)[L := new])) =
           take L (split_str sep s) @ split_str sep new @ drop (Suc L) (split_str sep s)"
proof -
  let ?ls = "split_str sep s"
  have free: "\<forall>l \<in> set ?ls. sep \<notin> set l" by (auto dest: split_str_sep_free)
  have upd: "?ls[L := new] = take L ?ls @ new # drop (Suc L) ?ls"
    using assms by (simp add: upd_conv_take_nth_drop)
  have "split_str sep (join_str sep (?ls[L := new])) = concat (map (split_str sep) (?ls[L := new]))"
    by (rule split_join) (use assms in auto)
  also have "\<dots> = concat (map (split_str sep) (take L ?ls)) @ split_str sep new
                  @ concat (map (split_str sep) (drop (Suc L) ?ls))"
    by (simp add: upd)
  also have "concat (map (split_str sep) (take L ?ls)) = take L ?ls"
    by (rule concat_split_lines) (use free in \<open>auto dest: in_set_takeD\<close>)
  also have "concat (map (split_str sep) (drop (Suc L) ?ls)) = drop (Suc L) ?ls"
    by (rule concat_split_lines) (use free in \<open>auto dest: in_set_dropD\<close>)
  finally show ?thesis .
qed

lemma split_str_hd_prefix:
  "sep \<notin> set x \<Longrightarrow> \<exists>seg segs. split_str sep (x @ y) = (x @ seg) # segs"
proof (induction x)
  case Nil
  then show ?case using split_str_nonempty[of sep y] by (cases "split_str sep y") auto
next
  case (Cons c x)
  then show ?case by auto
qed

lemma index_of_le: "index_of pat s = Some i \<Longrightarrow> i + length pat \<le> length s"
proof (induction s arbitrary: i)
  case Nil
  then show ?case by (auto split: if_splits)
next
  case (Cons c s)
  then show ?case by (auto split: if_splits dest: prefix_length_le)
qed

lemma indexOf_bounds:
  "indexOf s pat start = Some i \<Longrightarrow> min start (length s) \<le> i \<and> i + length pat \<le> length s"
  by (auto simp: indexOf_def Let_def dest!: index_of_le)

section \<open>Classification and translation\<close>

text \<open>
  C5. With profile A = (macOS, alice, sub-path Dropbox) and profile B = (Windows, alice, no
  sub-path) registered with different ids, in either order, and the plugin running on Windows
  under the user alice, so that B is the profile of the running machine, the path
  \<open>/Users/alice/Dropbox/img/cat.png\<close> classifies to A and translates to
  \<open>C:/Users/alice/img/cat.png\<close>. When B is registered first, the classifier tries the
  Windows pattern of B on the path, which does not match, and goes on to A. The witness
  evaluates both orders.
\<close>

theorem spec_example_translation:
  assumes A: "platform A = darwin" "username A = js ''alice''" "subPath A = js ''Dropbox''"
    and B: "platform B = win32" "username B = js ''alice''" "subPath B = []"
    and ids: "profile_id A \<noteq> profile_id B"
    and p: "enableCrossPlatform p" "computers p = [A, B] \<or> computers p = [B, A]"
    and live: "getCurrentPlatform p = win32" "getCurrentUsername p = js ''alice''"
  shows "findMatchingComputer p (js ''/Users/alice/Dropbox/img/cat.png'') = Some A \<and>
         convertPathForCurrentPlatform p (js ''/Users/alice/Dropbox/img/cat.png'')
           = js ''C:/Users/alice/img/cat.png''"
proof -
  have inc: "includes_str (js ''/Users/alice/Dropbox/img/cat.png'') (macPattern (js ''alice''))"
    by code_simp
  have no: "\<not> match_here (winPattern (js ''alice'')) (js ''/Users/alice/Dropbox/img/cat.png'')"
    by (simp add: eval_defs)
  have ne: "computers p \<noteq> []"
    using p by auto
  have loop: "matchingComputerLoop (js ''/Users/alice/Dropbox/img/cat.png'') (computers p) = Some A"
    using p(2) A B inc no by auto
  have f: "findMatchingComputer p (js ''/Users/alice/Dropbox/img/cat.png'') = Some A"
    using p(1) ne loop by (simp add: findMatchingComputer_def)
  have cur: "find (\<lambda>c. platform c = getCurrentPlatform p \<and> username c = getCurrentUsername p)
               (computers p) = Some B"
    using p(2) A B live by auto
  have rel: "replace_first (js ''/Users/alice/Dropbox/img/cat.png'')
               (macRoot (js ''alice'') (js ''Dropbox'')) [] = js ''img/cat.png''"
    by code_simp
  have tgt: "winTargetRoot (js ''alice'') [] @ js ''img/cat.png''
               = js ''C:/Users/alice/img/cat.png''"
    by code_simp
  show ?thesis
    using f cur rel tgt A B ids p(1) ne
    by (simp add: convertPathForCurrentPlatform_def relativePath_def)
qed

theorem spec_example_translation_witness:
  "findMatchingComputer
     (plugin_on win32 (js ''C:/Users/alice/vault'')
        [win_profile (js ''B'') (js ''alice'') [],
         mac_profile (js ''A'') (js ''alice'') (js ''Dropbox'')])
     (js ''/Users/alice/Dropbox/img/cat.png'')
   = Some (mac_profile (js ''A'') (js ''alice'') (js ''Dropbox'')) \<and>
   convertPathForCurrentPlatform
     (plugin_on win32 (js ''C:/Users/alice/vault'')
        [win_profile (js ''B'') (js ''alice'') [],
         mac_profile (js ''A'') (js ''alice'') (js ''Dropbox'')])
     (js ''/Users/alice/Dropbox/img/cat.png'')
   = js ''C:/Users/alice/img/cat.png'' \<and>
   findMatchingComputer
     (plugin_on win32 (js ''C:/Users/alice/vault'')
        [mac_profile (js ''A'') (js ''alice'') (js ''Dropbox''),
         win_profile (js ''B'') (js ''alice'') []])
     (js ''/Users/alice/Dropbox/img/cat.png'')
   = Some (mac_profile (js ''A'') (js ''alice'') (js ''Dropbox'')) \<and>
   convertPathForCurrentPlatform
     (plugin_on win32 (js ''C:/Users/alice/vault'')
        [mac_profile (js ''A'') (js ''alice'') (js ''Dropbox''),
         win_profile (js ''B'') (js ''alice'') []])
     (js ''/Users/alice/Dropbox/img/cat.png'')
   = js ''C:/Users/alice/img/cat.png''"
proof -
  let ?A = "mac_profile (js ''A'') (js ''alice'') (js ''Dropbox'')"
  let ?B = "win_profile (js ''B'') (js ''alice'') []"
  let ?p = "plugin_on win32 (js ''C:/Users/alice/vault'') [?B, ?A]"
  let ?p' = "plugin_on win32 (js ''C:/Users/alice/vault'') [?A, ?B]"
  have ids: "profile_id ?A \<noteq> profile_id ?B" by code_simp
  have user: "getCurrentUsername ?p = js ''alice''" by code_simp
  have user': "getCurrentUsername ?p' = js ''alice''" by code_simp
  have 1: "findMatchingComputer ?p (js ''/Users/alice/Dropbox/img/cat.png'') = Some ?A \<and>
           convertPathForCurrentPlatform ?p (js ''/Users/alice/Dropbox/img/cat.png'')
             = js ''C:/Users/alice/img/cat.png''"
    by (rule spec_example_translation[of ?A ?B ?p, OF _ _ _ _ _ _ ids _ _ _ user])
       (simp_all add: mac_profile_def win_profile_def plugin_on_def getCurrentPlatform_def)
  have 2: "findMatchingComputer ?p' (js ''/Users/alice/Dropbox/img/cat.png'') = Some ?A \<and>
           convertPathForCurrentPlatform ?p' (js ''/Users/alice/Dropbox/img/cat.png'')
             = js ''C:/Users/alice/img/cat.png''"
    by (rule spec_example_translation[of ?A ?B ?p', OF _ _ _ _ _ _ ids _ _ _ user'])
       (simp_all add: mac_profile_def win_profile_def plugin_on_def getCurrentPlatform_def)
  from 1 2 show ?thesis by simp
qed

text \<open>
  C1. The specification asks for the original path when the root of the source profile is
  not found in the path. The code has no such check: \<open>path.replace(sourceRoot, '')\<close> leaves
  the path as it is, and the root of the current computer is put in front of the whole
  path. Here the profile of alice has the sub-path Dropbox, the plugin runs on the Windows
  computer of bob, and the picture lies outside the Dropbox folder: the classifier matches
  the profile of alice, the root \<open>/Users/alice/Dropbox/\<close> does not occur in the path, and the
  result is neither the original path nor a path with the remainder behind the user
  segment.
\<close>

theorem convertPath_root_not_found:
  "findMatchingComputer
     (plugin_on win32 (js ''C:/Users/bob/vault'')
        [mac_profile (js ''A'') (js ''alice'') (js ''Dropbox''),
         win_profile (js ''B'') (js ''bob'') []])
     (js ''/Users/alice/Pictures/cat.png'')
   = Some (mac_profile (js ''A'') (js ''alice'') (js ''Dropbox'')) \<and>
   \<not> includes_str (js ''/Users/alice/Pictures/cat.png'')
       (macRoot (js ''alice'') (js ''Dropbox'')) \<and>
   convertPathForCurrentPlatform
     (plugin_on win32 (js ''C:/Users/bob/vault'')
        [mac_profile (js ''A'') (js ''alice'') (js ''Dropbox''),
         win_profile (js ''B'') (js ''bob'') []])
     (js ''/Users/alice/Pictures/cat.png'')
   = js ''C:/Users/bob//Users/alice/Pictures/cat.png''"
  by code_simp

section \<open>The scan passes run twice\<close>

text \<open>In render mode a second pass over an element changes nothing: a converted element
  carries the marker \<open>data-xplatform-converted\<close>, and an element the first pass left as it
  was is left so again.\<close>

lemma render_pass_idempotent:
  assumes "convertImageSrcForRendering p img = Inr img'"
  shows "convertImageSrcForRendering p img' = Inr img'"
proof (cases "img' = img")
  case True
  with assms show ?thesis by simp
next
  case False
  with assms obtain newSrc src where
    "img' = img(''src'' \<mapsto> newSrc, ''data-xplatform-converted'' \<mapsto> js ''true'',
               ''data-original-src'' \<mapsto> src)"
    by (auto simp: convertImageSrcForRendering_def Let_def
             split: option.splits if_splits sum.splits)
  then have "img' ''src'' = Some newSrc" "truthy (img' ''data-xplatform-converted'')"
    by (simp_all add: truthy_def js_def)
  then show ?thesis
    by (simp add: convertImageSrcForRendering_def)
qed

lemma convertCrossPlatformPaths_active:
  assumes "enableCrossPlatform p" "activeFile a = Some note" "files a note = Some (File content)"
    and "convertContent p content = Inr (newContent, convertedCount)"
  shows "convertCrossPlatformPaths p a =
           Inr (if 0 < convertedCount then vault_modify a note newContent else a)"
  using assms by (simp add: convertCrossPlatformPaths_def)

text \<open>
  C3. In content mode the second pass is not free of conversions. With the profiles of the
  example of the specification, A = (macOS, alice, Dropbox) and B = (Windows, alice), and
  the plugin running on B, a path in the convention of B still contains \<open>/Users/alice/\<close>,
  the pattern of A: \<open>isPathFromDifferentPlatform\<close> holds for it, the pass counts a
  conversion and, A being registered first, rewrites the path once more. Registered in the
  order B, A the first pass gives the right URL, and the second pass counts a conversion
  for it again (and so writes the file again). The last part of the theorem is the
  command itself on a vault whose active note holds the content the first pass produced:
  it writes the note, with the longer content.
\<close>

theorem content_pass_twice:
  "convertContent
     (plugin_on win32 (js ''C:/Users/alice/vault'')
        [mac_profile (js ''A'') (js ''alice'') (js ''Dropbox''),
         win_profile (js ''B'') (js ''alice'') []])
     (js ''![cat](file:///Users/alice/Dropbox/img/cat.png)'')
   = Inr (js ''![cat](file:///C:/Users/alice/C%3A/Users/alice/img/cat.png)'', 1) \<and>
   convertContent
     (plugin_on win32 (js ''C:/Users/alice/vault'')
        [mac_profile (js ''A'') (js ''alice'') (js ''Dropbox''),
         win_profile (js ''B'') (js ''alice'') []])
     (js ''![cat](file:///C:/Users/alice/C%3A/Users/alice/img/cat.png)'')
   = Inr (js (''![cat](file:///C:/Users/alice/C%3A/Users/alice/C%3A/Users/alice''
               @ ''/C%3A/Users/alice/img/cat.png)''), 1) \<and>
   convertContent
     (plugin_on win32 (js ''C:/Users/alice/vault'')
        [win_profile (js ''B'') (js ''alice'') [],
         mac_profile (js ''A'') (js ''alice'') (js ''Dropbox'')])
     (js ''![cat](file:///Users/alice/Dropbox/img/cat.png)'')
   = Inr (js ''![cat](file:///C:/Users/alice/img/cat.png)'', 1) \<and>
   convertContent
     (plugin_on win32 (js ''C:/Users/alice/vault'')
        [win_profile (js ''B'') (js ''alice'') [],
         mac_profile (js ''A'') (js ''alice'') (js ''Dropbox'')])
     (js ''![cat](file:///C:/Users/alice/img/cat.png)'')
   = Inr (js ''![cat](file:///C:/Users/alice/img/cat.png)'', 1) \<and>
   map_sum id modified
     (convertCrossPlatformPaths
        (plugin_on win32 (js ''C:/Users/alice/vault'')
           [mac_profile (js ''A'') (js ''alice'') (js ''Dropbox''),
            win_profile (js ''B'') (js ''alice'') []])
        (single_note (js ''![cat](file:///C:/Users/alice/C%3A/Users/alice/img/cat.png)'')))
   = Inr [(js ''note.md'',
           js (''![cat](file:///C:/Users/alice/C%3A/Users/alice/C%3A/Users/alice''
               @ ''/C%3A/Users/alice/img/cat.png)''))]"
proof -
  let ?AB = "plugin_on win32 (js ''C:/Users/alice/vault'')
               [mac_profile (js ''A'') (js ''alice'') (js ''Dropbox''),
                win_profile (js ''B'') (js ''alice'') []]"
  let ?BA = "plugin_on win32 (js ''C:/Users/alice/vault'')
               [win_profile (js ''B'') (js ''alice'') [],
                mac_profile (js ''A'') (js ''alice'') (js ''Dropbox'')]"
  let ?c1 = "js ''![cat](file:///C:/Users/alice/C%3A/Users/alice/img/cat.png)''"
  let ?c2 = "js (''![cat](file:///C:/Users/alice/C%3A/Users/alice/C%3A/Users/alice''
                 @ ''/C%3A/Users/alice/img/cat.png)'')"
  have first: "convertContent ?AB (js ''![cat](file:///Users/alice/Dropbox/img/cat.png)'')
                 = Inr (?c1, 1)"
    by (simp add: eval_defs)
  have second: "convertContent ?AB ?c1 = Inr (?c2, 1)"
    by (simp add: eval_defs)
  have first': "convertContent ?BA (js ''![cat](file:///Users/alice/Dropbox/img/cat.png)'')
                  = Inr (js ''![cat](file:///C:/Users/alice/img/cat.png)'', 1)"
    by (simp add: eval_defs)
  have second': "convertContent ?BA (js ''![cat](file:///C:/Users/alice/img/cat.png)'')
                   = Inr (js ''![cat](file:///C:/Users/alice/img/cat.png)'', 1)"
    by (simp add: eval_defs)
  have "convertCrossPlatformPaths ?AB (single_note ?c1)
          = Inr (if 0 < (1::nat) then vault_modify (single_note ?c1) (js ''note.md'') ?c2
                 else single_note ?c1)"
    by (rule convertCrossPlatformPaths_active[OF _ _ _ second])
       (simp_all add: plugin_on_def single_note_def)
  then have command: "map_sum id modified (convertCrossPlatformPaths ?AB (single_note ?c1))
                        = Inr [(js ''note.md'', ?c2)]"
    by (simp add: vault_modify_def single_note_def)
  from first second first' second' command show ?thesis by blast
qed

section \<open>The scheme of the encoded URL\<close>

lemma encode_letter_colon:
  assumes "ascii_letter l"
  shows "encodeURIComponent (l # 0x3A # s) =
         (case encodeURIComponent s of Inl e \<Rightarrow> Inl e | Inr r \<Rightarrow> Inr (l # js ''%3A'' @ r))"
proof -
  have u: "uriUnreserved l" using assms by (auto simp: ascii_letter_def uriUnreserved_def)
  have c: "\<not> uriUnreserved 0x3A" "\<not> leading_surrogate 0x3A" "\<not> trailing_surrogate 0x3A"
    by (simp_all add: uriUnreserved_def leading_surrogate_def trailing_surrogate_def)
  have e: "escape_code_point (unat (0x3A :: 16 word)) = js ''%3A''"
    by (simp add: eval_defs)
  show ?thesis using u c e by (simp split: sum.splits)
qed

lemma split_str_drive:
  "\<exists>seg segs. split_str 0x2F (l # 0x3A # s) = (l # 0x3A # seg) # segs \<and> split_str 0x2F s = seg # segs"
  if "l \<noteq> 0x2F" for l :: "16 word"
  using that split_str_nonempty[of "0x2F" s] by (cases "split_str 0x2F s") auto

lemma join_str_Cons: "join_str sep ((a # seg) # segs) = a # join_str sep (seg # segs)"
  by (cases segs) auto

lemma join_str_append: "join_str sep ((xs @ seg) # segs) = xs @ join_str sep (seg # segs)"
  by (cases segs) auto

lemma js_3A: "js ''%3A'' = [0x25, 0x33, 0x41]" by (simp add: js_def)

lemma drive_prefixedE:
  assumes "drive_prefixed s"
  obtains l tail where "s = l # 0x3A # tail" "ascii_letter l"
  using assms by (cases s rule: drive_prefixed.cases) auto

lemma ascii_letter_not_slash: "ascii_letter l \<Longrightarrow> l \<noteq> 0x2F"
  by (auto simp: ascii_letter_def)

lemma encode_drive_path:
  assumes l: "ascii_letter l"
    and enc: "encode_segments (split_str 0x2F (l # 0x3A # tail)) = Inr segments"
  shows "\<exists>segs. encode_segments (split_str 0x2F tail) = Inr segs \<and>
           restore_drive_colon (join_str 0x2F segments) = l # 0x3A # join_str 0x2F segs"
proof -
  from split_str_drive[OF ascii_letter_not_slash[OF l], of tail] obtain seg0 rest
    where sp: "split_str 0x2F (l # 0x3A # tail) = (l # 0x3A # seg0) # rest"
      and sp': "split_str 0x2F tail = seg0 # rest" by blast
  from enc sp obtain r0 es where
    r0: "encodeURIComponent seg0 = Inr r0" and es: "encode_segments rest = Inr es"
    and segs: "segments = (l # js ''%3A'' @ r0) # es"
    by (auto simp: encode_letter_colon[OF l] simp del: encodeURIComponent.simps split: sum.splits)
  have "encode_segments (split_str 0x2F tail) = Inr (r0 # es)"
    using sp' r0 es by simp
  moreover have "restore_drive_colon (join_str 0x2F segments) = l # 0x3A # join_str 0x2F (r0 # es)"
    using l by (cases es) (simp_all add: segs js_3A)
  ultimately show ?thesis by blast
qed

text \<open>
  C8, as the code has it. The triple-slash form and the restored colon depend on the platform
  the plugin runs on, not on the shape of the path alone. When the plugin runs on Windows
  and the path, after the decode loop, the translation to the current computer and the
  replacement of backslashes, starts with a drive letter and a colon, the URL is
  \<open>file:///\<close>, the drive letter, a colon that is not encoded, and the encoded rest of the
  path. In every other case, a path without a drive letter or any path on another platform,
  the URL is \<open>file://\<close> followed by the encoded path (so a drive colon is left as
  \<open>%3A\<close> there), and not \<open>file:///\<close> followed by the encoded path.
\<close>

theorem pathToFileUrl_scheme:
  assumes "pathToFileUrl p path = Inr url"
  shows "(getCurrentPlatform p = win32 \<and> drive_prefixed (normalizedPath p path) \<longrightarrow>
           (\<exists>l tail segs. ascii_letter l \<and> normalizedPath p path = l # 0x3A # tail \<and>
              encode_segments (split_str 0x2F tail) = Inr segs \<and>
              url = js ''file:///'' @ l # 0x3A # join_str 0x2F segs)) \<and>
         (\<not> (getCurrentPlatform p = win32 \<and> drive_prefixed (normalizedPath p path)) \<longrightarrow>
           (\<exists>segments. encode_segments (split_str 0x2F (normalizedPath p path)) = Inr segments \<and>
              url = js ''file://'' @ join_str 0x2F segments \<and>
              url \<noteq> js ''file:///'' @ join_str 0x2F segments))"
proof (intro conjI impI)
  assume w: "getCurrentPlatform p = win32 \<and> drive_prefixed (normalizedPath p path)"
  then obtain l tail where np: "normalizedPath p path = l # 0x3A # tail" and l: "ascii_letter l"
    by (auto elim: drive_prefixedE)
  from assms w obtain segments where
    enc: "encode_segments (split_str 0x2F (normalizedPath p path)) = Inr segments" and
    url: "url = js ''file:///'' @ restore_drive_colon (join_str 0x2F segments)"
    by (auto simp: pathToFileUrl_def Let_def split: sum.splits)
  from encode_drive_path[OF l enc[unfolded np]] url np l
  show "\<exists>l tail segs. ascii_letter l \<and> normalizedPath p path = l # 0x3A # tail \<and>
          encode_segments (split_str 0x2F tail) = Inr segs \<and>
          url = js ''file:///'' @ l # 0x3A # join_str 0x2F segs"
    by auto
next
  assume "\<not> (getCurrentPlatform p = win32 \<and> drive_prefixed (normalizedPath p path))"
  with assms show "\<exists>segments.
       encode_segments (split_str 0x2F (normalizedPath p path)) = Inr segments \<and>
       url = js ''file://'' @ join_str 0x2F segments \<and>
       url \<noteq> js ''file:///'' @ join_str 0x2F segments"
    by (auto simp: pathToFileUrl_def Let_def js_def split: sum.splits)
qed

theorem pathToFileUrl_scheme_witness:
  "getCurrentPlatform (plugin_on win32 (js ''C:/Users/bob/vault'') []) = win32 \<and>
   drive_prefixed
     (normalizedPath (plugin_on win32 (js ''C:/Users/bob/vault'') []) (js ''C:/Users/bob/my cat.png'')) \<and>
   (\<exists>l tail segs. ascii_letter l \<and>
      normalizedPath (plugin_on win32 (js ''C:/Users/bob/vault'') []) (js ''C:/Users/bob/my cat.png'')
        = l # 0x3A # tail \<and>
      encode_segments (split_str 0x2F tail) = Inr segs \<and>
      js ''file:///C:/Users/bob/my%20cat.png'' = js ''file:///'' @ l # 0x3A # join_str 0x2F segs) \<and>
   \<not> drive_prefixed
     (normalizedPath (plugin_on darwin (js ''/Users/alice/vault'') []) (js ''/Users/alice/my cat.png'')) \<and>
   (\<exists>segments.
      encode_segments (split_str 0x2F
        (normalizedPath (plugin_on darwin (js ''/Users/alice/vault'') []) (js ''/Users/alice/my cat.png'')))
        = Inr segments \<and>
      js ''file:///Users/alice/my%20cat.png'' = js ''file://'' @ join_str 0x2F segments)"
proof -
  let ?w = "plugin_on win32 (js ''C:/Users/bob/vault'') []"
  let ?m = "plugin_on darwin (js ''/Users/alice/vault'') []"
  have w: "pathToFileUrl ?w (js ''C:/Users/bob/my cat.png'')
             = Inr (js ''file:///C:/Users/bob/my%20cat.png'')"
    by (simp add: eval_defs)
  have m: "pathToFileUrl ?m (js ''/Users/alice/my cat.png'')
             = Inr (js ''file:///Users/alice/my%20cat.png'')"
    by (simp add: eval_defs)
  have wp: "getCurrentPlatform ?w = win32"
    and wd: "drive_prefixed (normalizedPath ?w (js ''C:/Users/bob/my cat.png''))"
    and md: "\<not> drive_prefixed (normalizedPath ?m (js ''/Users/alice/my cat.png''))"
    by (simp_all add: eval_defs)
  from pathToFileUrl_scheme[OF w] wp wd pathToFileUrl_scheme[OF m] md
  show ?thesis by blast
qed

text \<open>The claim as the specification words it fails for a Windows path encoded on
  macOS: two slashes, and the colon of the drive letter stays encoded.\<close>

theorem pathToFileUrl_windows_path_on_mac_counterexample:
  "pathToFileUrl (plugin_on darwin (js ''/Users/alice/vault'') []) (js ''C:/Users/bob/cat.png'')
     = Inr (js ''file://C%3A/Users/bob/cat.png'')"
  by (simp add: eval_defs)

section \<open>The flow that rewrites the other references\<close>

lemma keepPosition_iff:
  "keepPosition a note ex pos =
     (\<not> (activeFile a = Some note \<and> pos_line pos = fst ex \<and> pos_ch pos = snd ex))"
  by (auto simp: keepPosition_def split: option.splits)

lemma hits_filterReference:
  "hits (filterReference a ex ref) =
     filter (\<lambda>(note, pos). \<not> (activeFile a = Some note \<and> pos_line pos = fst ex \<and> pos_ch pos = snd ex))
       (hits [ref])"
proof -
  have "filter (\<lambda>(note, pos). keepPosition a note ex pos) (map (Pair (notePath ref)) (positions ref))
          = map (Pair (notePath ref)) (filter (keepPosition a (notePath ref) ex) (positions ref))"
    by (simp add: filter_map o_def)
  then show ?thesis
    by (simp add: hits_def filterReference_def Let_def keepPosition_iff)
qed

lemma hits_append: "hits (xs @ ys) = hits xs @ hits ys"
  by (simp add: hits_def)

lemma hits_Cons: "hits (r # rs) = hits [r] @ hits rs"
  by (simp add: hits_def)

lemma hits_filtered:
  "hits (concat (map (filterReference a ex) refs)) =
     filter (\<lambda>(note, pos). \<not> (activeFile a = Some note \<and> pos_line pos = fst ex \<and> pos_ch pos = snd ex))
       (hits refs)"
proof (induction refs)
  case Nil
  show ?case by (simp add: hits_def)
next
  case (Cons r rs)
  show ?case
    using Cons hits_filterReference[of a ex r]
    by (simp add: hits_append hits_Cons[of r rs])
qed

lemma replaceInNote_modified:
  "modified (replaceInNote f url a ref) =
     modified a @ (case files a (notePath ref) of
                     Some (File content) \<Rightarrow>
                       [(notePath ref,
                         rewriteContent (newMarkdownFor f url) (positions ref) content)]
                   | _ \<Rightarrow> [])"
  by (simp add: replaceInNote_def vault_modify_def split: option.splits abstract_file.splits)

lemma replaceInNote_is_file: "is_file (replaceInNote f url a ref) path = is_file a path"
  by (simp add: replaceInNote_def vault_modify_def is_file_def
           split: option.splits abstract_file.splits)

lemma replaceInNote_written:
  "map fst (modified (replaceInNote f url a ref)) =
     map fst (modified a) @ (if is_file a (notePath ref) then [notePath ref] else [])"
  by (simp add: replaceInNote_modified is_file_def split: option.splits abstract_file.splits)

lemma replaceAll_modified:
  "map fst (modified (replaceAllReferences a refs f url)) =
     map fst (modified a) @ filter (is_file a) (map notePath refs)"
proof (induction refs arbitrary: a)
  case Nil
  show ?case by (simp add: replaceAllReferences_def)
next
  case (Cons r rs)
  have step: "replaceAllReferences a (r # rs) f url
                = replaceAllReferences (replaceInNote f url a r) rs f url"
    by (simp add: replaceAllReferences_def)
  have same: "filter (is_file (replaceInNote f url a r)) (map notePath rs)
                = filter (is_file a) (map notePath rs)"
    by (rule filter_cong) (simp_all add: replaceInNote_is_file)
  show ?case
    unfolding step Cons[of "replaceInNote f url a r"] same replaceInNote_written
    by simp
qed

text \<open>
  C6. The flow writes nothing when the confirmation does not come: without a click, or with
  a click that is not earlier than the timer of 10000 ms, the state with its files and its
  list of writes is returned as it was. With a click in time the flow is
  \<open>replaceAllReferences\<close> on the filtered references. These are the hits of
  \<open>findAllReferencesToFile\<close> without the hits of the active file at the excluded position,
  and nothing else is dropped. Each note among them that is a file is written once. The
  witness is the example of the specification: three hits in two notes, the hit of the active
  note excluded, the two hits of the other note rewritten in one write.
\<close>

theorem offer_replace_protocol:
  "((case click of None \<Rightarrow> True | Some t \<Rightarrow> 10000 \<le> t) \<longrightarrow>
      offerToReplaceOtherReferences a f url ex click = a) \<and>
   ((case click of None \<Rightarrow> False | Some t \<Rightarrow> t < 10000) \<longrightarrow>
      offerToReplaceOtherReferences a f url ex click
        = replaceAllReferences a (filteredRefs a f ex) f url) \<and>
   hits (filteredRefs a f ex) =
     filter (\<lambda>(note, pos). \<not> (activeFile a = Some note \<and> pos_line pos = fst ex \<and> pos_ch pos = snd ex))
       (hits (findAllReferencesToFile a f)) \<and>
   map fst (modified (replaceAllReferences a (filteredRefs a f ex) f url)) =
     map fst (modified a) @ filter (is_file a) (map notePath (filteredRefs a f ex))"
proof (intro conjI impI)
  assume "case click of None \<Rightarrow> True | Some t \<Rightarrow> 10000 \<le> t"
  then show "offerToReplaceOtherReferences a f url ex click = a"
    by (auto simp: offerToReplaceOtherReferences_def Let_def confirmReplaceReferences_def
             split: option.splits)
next
  assume "case click of None \<Rightarrow> False | Some t \<Rightarrow> t < 10000"
  then show "offerToReplaceOtherReferences a f url ex click
               = replaceAllReferences a (filteredRefs a f ex) f url"
    by (auto simp: offerToReplaceOtherReferences_def Let_def confirmReplaceReferences_def
                   replaceAllReferences_def
             split: option.splits)
next
  show "hits (filteredRefs a f ex) =
          filter (\<lambda>(note, pos). \<not> (activeFile a = Some note \<and> pos_line pos = fst ex
                                      \<and> pos_ch pos = snd ex))
            (hits (findAllReferencesToFile a f))"
    unfolding filteredRefs_def by (rule hits_filtered)
next
  show "map fst (modified (replaceAllReferences a (filteredRefs a f ex) f url)) =
          map fst (modified a) @ filter (is_file a) (map notePath (filteredRefs a f ex))"
    by (rule replaceAll_modified)
qed

theorem offer_replace_protocol_witness:
  "offerToReplaceOtherReferences two_notes cat_file (js ''https://cdn.example/cat.png'') (1, 4) None
     = two_notes \<and>
   offerToReplaceOtherReferences two_notes cat_file (js ''https://cdn.example/cat.png'') (1, 4)
     (Some 10000) = two_notes \<and>
   map (\<lambda>(note, pos). (note, pos_line pos, pos_ch pos))
     (hits (findAllReferencesToFile two_notes cat_file))
     = [(js ''a.md'', 1, 4), (js ''b.md'', 0, 0), (js ''b.md'', 0, 17)] \<and>
   map (\<lambda>(note, pos). (note, pos_line pos, pos_ch pos))
     (hits (filteredRefs two_notes cat_file (1, 4)))
     = [(js ''b.md'', 0, 0), (js ''b.md'', 0, 17)] \<and>
   modified (offerToReplaceOtherReferences two_notes cat_file (js ''https://cdn.example/cat.png'')
     (1, 4) (Some 2500))
     = [(js ''b.md'', js (''![cat](https://cdn.example/cat.png) and ''
                          @ ''![cat](https://cdn.example/cat.png)''))]"
proof -
  let ?url = "js ''https://cdn.example/cat.png''"
  note inst = offer_replace_protocol[of _ two_notes cat_file ?url "(1, 4)"]
  have a: "offerToReplaceOtherReferences two_notes cat_file ?url (1, 4) None = two_notes"
    using inst[of None] by simp
  have b: "offerToReplaceOtherReferences two_notes cat_file ?url (1, 4) (Some 10000) = two_notes"
    using inst[of "Some 10000"] by simp
  have c: "offerToReplaceOtherReferences two_notes cat_file ?url (1, 4) (Some 2500)
             = replaceAllReferences two_notes (filteredRefs two_notes cat_file (1, 4)) cat_file ?url"
    using inst[of "Some 2500"] by simp
  have d: "map (\<lambda>(note, pos). (note, pos_line pos, pos_ch pos))
             (hits (findAllReferencesToFile two_notes cat_file))
           = [(js ''a.md'', 1, 4), (js ''b.md'', 0, 0), (js ''b.md'', 0, 17)]"
    by (simp add: eval_refs js_def)
  have e: "map (\<lambda>(note, pos). (note, pos_line pos, pos_ch pos))
             (hits (filteredRefs two_notes cat_file (1, 4)))
           = [(js ''b.md'', 0, 0), (js ''b.md'', 0, 17)]"
    by (simp add: eval_refs js_def)
  have f: "modified (replaceAllReferences two_notes (filteredRefs two_notes cat_file (1, 4))
                       cat_file ?url)
           = [(js ''b.md'', js (''![cat](https://cdn.example/cat.png) and ''
                                @ ''![cat](https://cdn.example/cat.png)''))]"
    by (simp add: eval_refs eval_defs)
  from a b c d e f show ?thesis by simp
qed

section \<open>Rewriting the hits of a note\<close>

lemma offset_kept_refl: "offset_kept c c q"
  by (simp add: offset_kept_def take_is_prefix)

lemma replaceHit_keeps:
  assumes le: "pos_line q < pos_line p \<or> (pos_line q = pos_line p \<and> pos_ch q \<le> pos_ch p)"
  shows "offset_kept c (replaceHit nm c p) q"
proof (cases "replaceHit nm c p = c")
  case True
  then show ?thesis by (simp add: offset_kept_refl)
next
  case False
  let ?ls = "split_str 0x0A c"
  let ?L = "pos_line p"
  let ?line = "?ls ! ?L"
  from False obtain i where L: "?L < length ?ls" and
    idx: "indexOf ?line (pos_text p) (pos_ch p) = Some i" and
    c': "replaceHit nm c p =
           join_str 0x0A (?ls[?L := take i ?line @ nm @ drop (i + length (pos_text p)) ?line])"
    by (auto simp: replaceHit_def Let_def split: if_splits option.splits)
  let ?new = "take i ?line @ nm @ drop (i + length (pos_text p)) ?line"
  let ?ls' = "split_str 0x0A (replaceHit nm c p)"
  have ls': "?ls' = take ?L ?ls @ split_str 0x0A ?new @ drop (Suc ?L) ?ls"
    unfolding c' by (rule split_join_update[OF L])
  have free: "0x0A \<notin> set ?line"
    using L by (auto dest: split_str_sep_free[OF nth_mem])
  then have "0x0A \<notin> set (take i ?line)" by (auto dest: in_set_takeD)
  from split_str_hd_prefix[OF this, of "nm @ drop (i + length (pos_text p)) ?line"]
  obtain seg segs where new: "split_str 0x0A ?new = (take i ?line @ seg) # segs" by auto
  from indexOf_bounds[OF idx] have i: "min (pos_ch p) (length ?line) \<le> i" "i \<le> length ?line"
    by auto
  have qL: "pos_line q \<le> ?L" using le by auto
  have t: "take (pos_line q) ?ls' = take (pos_line q) ?ls"
    using qL L by (simp add: ls' min_def)
  have len: "length ?ls \<le> length ?ls'"
    using L by (simp add: ls' new)
  have pre: "prefix (take (pos_ch q) (?ls ! pos_line q)) (?ls' ! pos_line q)"
  proof (cases "pos_line q < ?L")
    case True
    then have "?ls' ! pos_line q = ?ls ! pos_line q"
      using L by (simp add: ls' nth_append)
    then show ?thesis by (simp add: take_is_prefix)
  next
    case False
    with le have eq: "pos_line q = ?L" and ch: "pos_ch q \<le> pos_ch p" by auto
    have nth: "?ls' ! ?L = take i ?line @ seg"
      using L by (simp add: ls' new nth_append)
    have "take (pos_ch q) ?line = take (pos_ch q) (take i ?line)"
    proof (cases "pos_ch q \<le> i")
      case True
      then show ?thesis by (simp add: min_def)
    next
      case False
      with i ch have "i = length ?line" by (auto simp: min_def split: if_splits)
      then show ?thesis by simp
    qed
    then have "prefix (take (pos_ch q) ?line) (take i ?line)"
      by (metis take_is_prefix)
    then show ?thesis
      unfolding eq nth by (rule prefix_order.trans) simp
  qed
  show ?thesis
    unfolding offset_kept_def using t len pre by auto
qed

lemma comparePositions_le:
  "comparePositions x y \<le> 0 \<longleftrightarrow>
     pos_line y < pos_line x \<or> (pos_line y = pos_line x \<and> pos_ch y \<le> pos_ch x)"
  by (auto simp: comparePositions_def)

lemma count_insertPosition:
  "count_list (insertPosition x ys) z = count_list (x # ys) z"
  by (induction ys) auto

lemma count_sortedPositions: "count_list (sortedPositions ps) z = count_list ps z"
  by (induction ps) (auto simp: sortedPositions_def count_insertPosition)

lemma set_insertPosition: "set (insertPosition x ys) = insert x (set ys)"
  by (induction ys) auto

lemma sorted_insertPosition:
  "sorted_wrt (\<lambda>x y. comparePositions x y \<le> 0) ys \<Longrightarrow>
   sorted_wrt (\<lambda>x y. comparePositions x y \<le> 0) (insertPosition x ys)"
proof (induction ys)
  case Nil
  show ?case by simp
next
  case (Cons y ys)
  show ?case
  proof (cases "comparePositions x y \<le> 0")
    case True
    have "comparePositions x z \<le> 0" if "z \<in> set ys" for z
      using Cons.prems True that by (auto simp: comparePositions_le)
    with True Cons.prems show ?thesis by auto
  next
    case False
    then have "comparePositions y x \<le> 0" by (auto simp: comparePositions_le)
    with False Cons show ?thesis by (auto simp: set_insertPosition)
  qed
qed

lemma sorted_sortedPositions:
  "sorted_wrt (\<lambda>x y. comparePositions x y \<le> 0) (sortedPositions ps)"
  by (induction ps) (auto simp: sortedPositions_def intro: sorted_insertPosition)

lemma distinct_notePath_head:
  assumes "distinct (map notePath (x # xs))" and "r \<in> set xs"
  shows "notePath r \<noteq> notePath x"
proof
  assume "notePath r = notePath x"
  moreover from assms(2) have "notePath r \<in> set (map notePath xs)" by simp
  ultimately have "notePath x \<in> set (map notePath xs)" by simp
  with assms(1) show False by simp
qed

lemma replaceInNote_files_other:
  "x \<noteq> notePath r \<Longrightarrow> files (replaceInNote f url a r) x = files a x"
  by (simp add: replaceInNote_def vault_modify_def split: option.splits abstract_file.splits)

lemma replaceInNote_files_same:
  "files a (notePath r) = Some (File c) \<Longrightarrow>
   files (replaceInNote f url a r) (notePath r)
     = Some (File (foldl (replaceHit (newMarkdownFor f url)) c (sortedPositions (positions r))))"
  by (simp add: replaceInNote_def vault_modify_def rewriteContent_def)

lemma replaceAll_step:
  "replaceAllReferences a (r # rs) f url = replaceAllReferences (replaceInNote f url a r) rs f url"
  by (simp add: replaceAllReferences_def)

lemma replaceAll_files_untouched:
  "x \<notin> set (map notePath refs) \<Longrightarrow> files (replaceAllReferences a refs f url) x = files a x"
proof (induction refs arbitrary: a)
  case Nil
  show ?case by (simp add: replaceAllReferences_def)
next
  case (Cons r rs)
  then show ?case
    by (simp add: replaceAll_step replaceInNote_files_other)
qed

lemma replaceAll_files:
  assumes "distinct (map notePath refs)" and "r \<in> set refs"
    and "files a (notePath r) = Some (File c)"
  shows "files (replaceAllReferences a refs f url) (notePath r)
           = Some (File (foldl (replaceHit (newMarkdownFor f url)) c (sortedPositions (positions r))))"
  using assms
proof (induction refs arbitrary: a)
  case Nil
  then show ?case by simp
next
  case (Cons x xs)
  show ?case
  proof (cases "r = x")
    case True
    with Cons.prems have "notePath r \<notin> set (map notePath xs)" by auto
    from replaceAll_files_untouched[OF this] Cons.prems(3) True show ?thesis
      by (simp add: replaceAll_step replaceInNote_files_same)
  next
    case False
    with Cons.prems have in_xs: "r \<in> set xs" by auto
    with Cons.prems(1) have ne: "notePath r \<noteq> notePath x" by (rule distinct_notePath_head)
    from Cons.prems have d: "distinct (map notePath xs)" by simp
    have "files (replaceInNote f url a x) (notePath r) = Some (File c)"
      using ne Cons.prems(3) by (simp add: replaceInNote_files_other)
    from Cons.IH[OF d in_xs this] show ?thesis
      by (simp add: replaceAll_step)
  qed
qed

lemma replaceAll_log:
  assumes "distinct (map notePath refs)"
  shows "modified (replaceAllReferences a refs f url) =
           modified a @ concat (map (\<lambda>r. case files a (notePath r) of
                Some (File c) \<Rightarrow>
                  [(notePath r,
                    foldl (replaceHit (newMarkdownFor f url)) c (sortedPositions (positions r)))]
              | _ \<Rightarrow> []) refs)"
  using assms
proof (induction refs arbitrary: a)
  case Nil
  show ?case by (simp add: replaceAllReferences_def)
next
  case (Cons x xs)
  let ?W = "\<lambda>a r. case files a (notePath r) of
                Some (File c) \<Rightarrow>
                  [(notePath r,
                    foldl (replaceHit (newMarkdownFor f url)) c (sortedPositions (positions r)))]
              | _ \<Rightarrow> []"
  from Cons.prems have d: "distinct (map notePath xs)" by simp
  from Cons.prems have nx: "notePath r \<noteq> notePath x" if "r \<in> set xs" for r
    using that by (rule distinct_notePath_head)
  have same: "map (?W (replaceInNote f url a x)) xs = map (?W a) xs"
    by (rule map_cong) (simp_all add: replaceInNote_files_other nx)
  have first: "modified (replaceInNote f url a x) = modified a @ ?W a x"
    by (simp add: replaceInNote_modified rewriteContent_def
             split: option.splits abstract_file.splits)
  show ?case
    unfolding replaceAll_step Cons.IH[OF d] same first by simp
qed

lemma notePath_filterReference:
  "map notePath (filterReference a ex r) = (if filterReference a ex r = [] then [] else [notePath r])"
  by (simp add: filterReference_def Let_def)

lemma notePath_referencesInNote:
  "map notePath (referencesInNote a f n) = (if referencesInNote a f n = [] then [] else [n])"
  by (simp add: referencesInNote_def Let_def split: option.splits)

lemma notePath_findAll:
  "map notePath (findAllReferencesToFile a f)
     = filter (\<lambda>n. referencesInNote a f n \<noteq> []) (markdownFiles a)"
proof -
  have "map notePath (concat (map (referencesInNote a f) ns))
          = filter (\<lambda>n. referencesInNote a f n \<noteq> []) ns" for ns
    by (induction ns) (simp_all add: notePath_referencesInNote)
  then show ?thesis by (simp add: findAllReferencesToFile_def)
qed

lemma notePath_filtered:
  "map notePath (concat (map (filterReference a ex) refs))
     = map notePath (filter (\<lambda>r. filterReference a ex r \<noteq> []) refs)"
  by (induction refs) (simp_all add: notePath_filterReference)

lemma filteredRefs_distinct:
  "distinct (markdownFiles a) \<Longrightarrow> distinct (map notePath (filteredRefs a f ex))"
proof -
  assume d: "distinct (markdownFiles a)"
  then have "distinct (map notePath (findAllReferencesToFile a f))"
    by (simp add: notePath_findAll)
  then show ?thesis
    unfolding filteredRefs_def notePath_filtered by (rule distinct_map_filter)
qed

text \<open>
  C7. In a note the hits are rewritten from the last one to the first: the sorted list is a
  rearrangement of the hits, and a hit \<open>q\<close> that comes after a hit \<open>p\<close> in it lies on an
  earlier line than \<open>p\<close>, or on the same line at a column that is not greater. Rewriting
  \<open>p\<close> keeps the recorded offset of every such \<open>q\<close>, whatever the content is at that
  moment. A note that is a file is written once, with the content in which all its hits have
  been rewritten in this order. \<open>replaceAllReferences\<close> does this for every reference
  of its list: when the notes of the references are different from one another (as they are
  for the references of \<open>findAllReferencesToFile\<close> when the vault lists each note once,
  lemma \<open>filteredRefs_distinct\<close>), its writes are, in the order of the list, one write for
  each note that is a file, with the content that the note had before in which all the hits
  have been rewritten from the last to the first; a path that is not a file is skipped;
  and afterwards each such note holds that content.
\<close>

theorem hits_rewritten_last_to_first:
  assumes "sortedPositions ps = before @ p # todo" and "q \<in> set todo"
  shows "(\<forall>z. count_list (sortedPositions ps) z = count_list ps z) \<and>
         (pos_line q < pos_line p \<or> (pos_line q = pos_line p \<and> pos_ch q \<le> pos_ch p)) \<and>
         offset_kept c (replaceHit nm c p) q \<and>
         (files a (notePath ref) = Some (File content) \<longrightarrow>
            modified (replaceInNote f url a ref) =
              modified a @ [(notePath ref,
                 foldl (replaceHit (newMarkdownFor f url)) content
                   (sortedPositions (positions ref)))]) \<and>
         (distinct (map notePath refs) \<longrightarrow>
            modified (replaceAllReferences a refs f url) =
              modified a @ concat (map (\<lambda>r. case files a (notePath r) of
                   Some (File c) \<Rightarrow>
                     [(notePath r,
                       foldl (replaceHit (newMarkdownFor f url)) c
                         (sortedPositions (positions r)))]
                 | _ \<Rightarrow> []) refs) \<and>
            (\<forall>r c. r \<in> set refs \<and> files a (notePath r) = Some (File c) \<longrightarrow>
               files (replaceAllReferences a refs f url) (notePath r) =
                 Some (File (foldl (replaceHit (newMarkdownFor f url)) c
                               (sortedPositions (positions r))))))"
proof -
  from sorted_sortedPositions[of ps] assms
  have "comparePositions p q \<le> 0"
    by (auto simp: sorted_wrt_append)
  then have le: "pos_line q < pos_line p \<or> (pos_line q = pos_line p \<and> pos_ch q \<le> pos_ch p)"
    by (simp add: comparePositions_le)
  have note1: "files a (notePath ref) = Some (File content) \<longrightarrow>
            modified (replaceInNote f url a ref) =
              modified a @ [(notePath ref,
                 foldl (replaceHit (newMarkdownFor f url)) content
                   (sortedPositions (positions ref)))]"
    by (simp add: replaceInNote_def vault_modify_def rewriteContent_def)
  have all: "distinct (map notePath refs) \<longrightarrow>
            modified (replaceAllReferences a refs f url) =
              modified a @ concat (map (\<lambda>r. case files a (notePath r) of
                   Some (File c) \<Rightarrow>
                     [(notePath r,
                       foldl (replaceHit (newMarkdownFor f url)) c
                         (sortedPositions (positions r)))]
                 | _ \<Rightarrow> []) refs) \<and>
            (\<forall>r c. r \<in> set refs \<and> files a (notePath r) = Some (File c) \<longrightarrow>
               files (replaceAllReferences a refs f url) (notePath r) =
                 Some (File (foldl (replaceHit (newMarkdownFor f url)) c
                               (sortedPositions (positions r)))))"
    using replaceAll_log[of refs a f url] replaceAll_files[of refs _ a _ f url] by blast
  from le replaceHit_keeps[OF le, of c nm] count_sortedPositions[of ps] note1 all
  show ?thesis by (intro conjI allI) blast+
qed

theorem hits_rewritten_last_to_first_witness:
  "sortedPositions [embed_position (cat_embed 0 0), embed_position (cat_embed 0 17)]
     = [] @ embed_position (cat_embed 0 17) # [embed_position (cat_embed 0 0)] \<and>
   replaceHit (js ''![cat](u)'') (js ''![[cat.png]] and ![[cat.png]]'')
       (embed_position (cat_embed 0 17))
     = js ''![[cat.png]] and ![cat](u)'' \<and>
   offset_kept (js ''![[cat.png]] and ![[cat.png]]'')
     (replaceHit (js ''![cat](u)'') (js ''![[cat.png]] and ![[cat.png]]'')
        (embed_position (cat_embed 0 17)))
     (embed_position (cat_embed 0 0)) \<and>
   modified (replaceInNote cat_file (js ''u'') two_notes
      \<lparr>notePath = js ''b.md'',
       positions = [embed_position (cat_embed 0 0), embed_position (cat_embed 0 17)]\<rparr>)
     = [(js ''b.md'', js ''![cat](u) and ![cat](u)'')] \<and>
   findAllReferencesToFile two_notes cat_file
     = [\<lparr>notePath = js ''a.md'', positions = [embed_position (cat_embed 1 4)]\<rparr>,
        \<lparr>notePath = js ''b.md'',
         positions = [embed_position (cat_embed 0 0), embed_position (cat_embed 0 17)]\<rparr>] \<and>
   modified (replaceAllReferences two_notes (findAllReferencesToFile two_notes cat_file)
               cat_file (js ''u''))
     = [(js ''a.md'', js ''intro'' @ [0x0A] @ js ''see ![cat](u) here''),
        (js ''b.md'', js ''![cat](u) and ![cat](u)'')] \<and>
   files (replaceAllReferences two_notes (findAllReferencesToFile two_notes cat_file)
            cat_file (js ''u'')) (js ''b.md'')
     = Some (File (js ''![cat](u) and ![cat](u)''))"
proof -
  let ?ps = "[embed_position (cat_embed 0 0), embed_position (cat_embed 0 17)]"
  let ?c = "js ''![[cat.png]] and ![[cat.png]]''"
  let ?ca = "js ''intro'' @ [0x0A] @ js ''see ![[cat.png]] here''"
  let ?ra = "\<lparr>notePath = js ''a.md'', positions = [embed_position (cat_embed 1 4)]\<rparr>"
  let ?rb = "\<lparr>notePath = js ''b.md'', positions = ?ps\<rparr>"
  let ?nm = "newMarkdownFor cat_file (js ''u'')"
  have s: "sortedPositions ?ps = [] @ embed_position (cat_embed 0 17) # [embed_position (cat_embed 0 0)]"
    by (simp add: eval_refs)
  have q: "embed_position (cat_embed 0 0) \<in> set [embed_position (cat_embed 0 0)]" by simp
  have r: "replaceHit (js ''![cat](u)'') ?c (embed_position (cat_embed 0 17))
             = js ''![[cat.png]] and ![cat](u)''"
    by (simp add: eval_refs eval_defs)
  have refs: "findAllReferencesToFile two_notes cat_file = [?ra, ?rb]"
    by (simp add: eval_refs js_def)
  have d: "distinct (map notePath [?ra, ?rb])"
    by (simp add: js_def)
  have fa: "files two_notes (js ''a.md'') = Some (File ?ca)"
    by (simp add: eval_refs js_def)
  have fb: "files two_notes (js ''b.md'') = Some (File ?c)"
    by (simp add: eval_refs js_def)
  have wa: "foldl (replaceHit ?nm) ?ca (sortedPositions [embed_position (cat_embed 1 4)])
             = js ''intro'' @ [0x0A] @ js ''see ![cat](u) here''"
    by (simp add: eval_refs eval_defs)
  have wb: "foldl (replaceHit ?nm) ?c (sortedPositions ?ps) = js ''![cat](u) and ![cat](u)''"
    by (simp add: eval_refs eval_defs)
  have m: "modified two_notes = []" by (simp add: two_notes_def)
  note inst = hits_rewritten_last_to_first[OF s q, of ?c "js ''![cat](u)''" two_notes
      ?rb ?c cat_file "js ''u''" "[?ra, ?rb]"]
  from inst fb wb m have one:
    "modified (replaceInNote cat_file (js ''u'') two_notes ?rb)
       = [(js ''b.md'', js ''![cat](u) and ![cat](u)'')]"
    by simp
  from inst d fa fb wa wb m have log:
    "modified (replaceAllReferences two_notes [?ra, ?rb] cat_file (js ''u''))
       = [(js ''a.md'', js ''intro'' @ [0x0A] @ js ''see ![cat](u) here''),
          (js ''b.md'', js ''![cat](u) and ![cat](u)'')]"
    by simp
  note both = inst[THEN conjunct2, THEN conjunct2, THEN conjunct2, THEN conjunct2, THEN mp, OF d]
  have mem: "?rb \<in> set [?ra, ?rb] \<and> files two_notes (notePath ?rb) = Some (File ?c)"
    using fb by simp
  from both[THEN conjunct2, rule_format, OF mem]
  have "files (replaceAllReferences two_notes [?ra, ?rb] cat_file (js ''u'')) (notePath ?rb)
         = Some (File (foldl (replaceHit ?nm) ?c (sortedPositions (positions ?rb))))" .
  with wb have fl:
    "files (replaceAllReferences two_notes [?ra, ?rb] cat_file (js ''u'')) (js ''b.md'')
       = Some (File (js ''![cat](u) and ![cat](u)''))"
    by simp
  from inst s r one log fl refs show ?thesis by simp
qed

section \<open>User names that are substrings of other user names\<close>

lemma length_js [simp]: "length (js s) = length s" by (simp add: js_def)

lemma match_here_nth:
  "match_here as s \<Longrightarrow> k < length as \<Longrightarrow> k < length s \<and> atom_match (as ! k) (s ! k)"
proof (induction as s arbitrary: k rule: match_here.induct)
  case (1 s)
  then show ?case by simp
next
  case (2 a as)
  then show ?case by simp
next
  case (3 a as c s)
  then show ?case by (cases k) auto
qed

lemma prefix_nth: "prefix xs ys \<Longrightarrow> k < length xs \<Longrightarrow> k < length ys \<and> ys ! k = xs ! k"
  by (auto simp: prefix_def nth_append)

lemma winPattern_nth_name:
  "k < length u \<Longrightarrow> winPattern u ! (9 + k) = Lit (u ! k)"
  by (simp add: winPattern_def literal_def nth_append)

lemma winPattern_nth_sep: "winPattern u ! (9 + length u) = Sep"
  by (simp add: winPattern_def literal_def nth_append)

lemma winPattern_length: "length (winPattern u) = 10 + length u"
  by (simp add: winPattern_def literal_def)

lemma winPattern_nth_0: "winPattern u ! 0 = AnyLetter" "winPattern u ! Suc 0 = Lit 0x3A"
  by (simp_all add: winPattern_def)

lemma macPattern_nth_name: "k < length u \<Longrightarrow> macPattern u ! (7 + k) = u ! k"
  by (simp add: macPattern_def nth_append)

lemma macPattern_nth_sep: "macPattern u ! (7 + length u) = 0x2F"
  by (simp add: macPattern_def nth_append js_def)

lemma macPattern_length: "length (macPattern u) = 8 + length u"
  by (simp add: macPattern_def)

lemma macPattern_nth_0: "macPattern u ! 0 = 0x2F"
  by (simp add: macPattern_def js_def)

lemma unat_lower_to_upper:
  "97 \<le> unat (c :: 16 word) \<Longrightarrow> unat (c - 32) = unat c - 32"
  by (subst unat_sub) (simp_all add: word_le_nat_alt)

lemma canonicalize_fixed:
  assumes "unat b < 97 \<or> 122 < unat b" "unat b < 65 \<or> 90 < unat b"
    and "canonicalize a = canonicalize b"
  shows "a = b"
proof (cases "97 \<le> unat a \<and> unat a \<le> 122")
  case True
  with assms have "a - 32 = b" by (auto simp: canonicalize_def split: if_splits)
  then have "unat b = unat a - 32" using True unat_lower_to_upper[of a] by auto
  with True assms(2) show ?thesis by auto
next
  case False
  with assms show ?thesis by (auto simp: canonicalize_def split: if_splits)
qed

lemma separator_canonicalize:
  "canonicalize a = canonicalize b \<Longrightarrow> separator b \<Longrightarrow> separator a"
  using canonicalize_fixed[of b a] by (auto simp: separator_def)

lemma colon_canonicalize: "canonicalize 0x3A = canonicalize b \<Longrightarrow> b = 0x3A"
  using canonicalize_fixed[of "0x3A" b] by auto

lemma index_of_drop: "index_of pat s = Some i \<Longrightarrow> prefix pat (drop i s)"
proof (induction s arbitrary: i)
  case Nil
  then show ?case by (auto split: if_splits)
next
  case (Cons c s)
  then show ?case by (auto split: if_splits)
qed

lemma includes_str_drop: "includes_str s pat \<Longrightarrow> \<exists>i. prefix pat (drop i s)"
  by (auto simp: includes_str_def dest: index_of_drop)

lemma matchingComputerLoop_Some:
  "matchingComputerLoop path cs = Some c \<Longrightarrow>
     c \<in> set cs \<and>
     ((platform c = darwin \<and> includes_str path (macPattern (username c))) \<or>
      (platform c = win32 \<and> match_here (winPattern (username c)) path))"
  by (induction cs) (auto split: if_splits)

lemma win_pattern_shorter:
  assumes long: "match_here (winPattern long) path"
    and len: "length short < length long"
    and nosep: "list_all (\<lambda>c. \<not> separator c) long"
  shows "\<not> separator (path ! (9 + length short))"
proof
  assume sep: "separator (path ! (9 + length short))"
  from match_here_nth[OF long, of "9 + length short"] len
  have "atom_match (Lit (long ! length short)) (path ! (9 + length short))"
    by (simp add: winPattern_length winPattern_nth_name)
  then have "canonicalize (long ! length short) = canonicalize (path ! (9 + length short))"
    by simp
  from separator_canonicalize[OF this sep] nosep len show False
    by (auto simp: list_all_iff)
qed

lemma strict_sublist_length: "strict_sublist short long \<Longrightarrow> length short < length long"
proof -
  assume s: "strict_sublist short long"
  then obtain ps ss where l: "long = ps @ short @ ss" and ne: "short \<noteq> long"
    by (auto simp: strict_sublist_def sublist_def)
  then have "ps \<noteq> [] \<or> ss \<noteq> []" by auto
  with l show ?thesis by auto
qed

text \<open>
  C9, as the code has it. Let the path be in the convention of a user whose name contains no
  path separator, and let a shorter name be a proper substring of that name. The Windows
  pattern of \<open>findMatchingComputer\<close> for the shorter name, anchored at the start, does not
  match the path; and the macOS pattern \<open>/Users/<shorter>/\<close> does not match at the place of
  the root of the path, because the separator has to follow the name at once. The macOS test
  is a substring test over the whole path, though: the path classifies to a profile with the
  shorter name only when that profile is a macOS profile and \<open>/Users/<shorter>/\<close> occurs
  again further right in the path.
\<close>

theorem shorter_username_not_matched_at_root:
  assumes conv: "produced_under long path off"
    and sub: "strict_sublist short long"
    and nosep: "list_all (\<lambda>c. \<not> separator c) long"
    and lit: "regex_literal short"
  shows "\<not> match_here (winPattern short) path \<and>
         \<not> prefix (macPattern short) (drop off path) \<and>
         (findMatchingComputer p path = Some c \<and> username c = short \<longrightarrow>
            platform c = darwin \<and> (\<exists>i. off < i \<and> prefix (macPattern short) (drop i path)))"
proof -
  note len = strict_sublist_length[OF sub]
  have slash: "\<not> separator (long ! length short)"
    using nosep len by (auto simp: list_all_iff)
  have W: "\<not> match_here (winPattern short) path"
  proof
    assume m: "match_here (winPattern short) path"
    from match_here_nth[OF m, of 0] have letter: "ascii_letter (path ! 0)"
      by (simp add: winPattern_length winPattern_nth_0)
    from match_here_nth[OF m, of "9 + length short"]
    have sep: "separator (path ! (9 + length short))"
      by (simp add: winPattern_length winPattern_nth_sep)
    show False
    proof (cases "off = 0")
      case True
      with conv have "prefix (macPattern long) path" by (simp add: produced_under_def)
      from prefix_nth[OF this, of 0] have "path ! 0 = 0x2F"
        by (simp add: macPattern_length macPattern_nth_0)
      with letter show False by (simp add: ascii_letter_def)
    next
      case False
      with conv have "match_here (winPattern long) path"
        by (simp add: produced_under_def split: if_splits)
      from win_pattern_shorter[OF this len nosep] sep show False by simp
    qed
  qed
  have M: "\<not> prefix (macPattern short) (drop off path)"
  proof
    assume m: "prefix (macPattern short) (drop off path)"
    from prefix_nth[OF m, of "7 + length short"]
    have inb: "7 + length short < length (drop off path)"
      and sl: "drop off path ! (7 + length short) = 0x2F"
      by (simp_all add: macPattern_length macPattern_nth_sep)
    show False
    proof (cases "off = 0")
      case True
      with conv have "prefix (macPattern long) path" by (simp add: produced_under_def)
      from prefix_nth[OF this, of "7 + length short"] len
      have "path ! (7 + length short) = long ! length short"
        by (simp add: macPattern_length macPattern_nth_name)
      with sl True slash show False by (simp add: separator_def)
    next
      case False
      with conv have off: "off = 2" and w: "match_here (winPattern long) path"
        by (simp_all add: produced_under_def split: if_splits)
      from sl inb off have "path ! (9 + length short) = 0x2F" by (simp add: add.commute)
      with win_pattern_shorter[OF w len nosep] show False by (simp add: separator_def)
    qed
  qed
  have C: "platform c = darwin \<and> (\<exists>i. off < i \<and> prefix (macPattern short) (drop i path))"
    if f: "findMatchingComputer p path = Some c" and u: "username c = short"
  proof -
    from f have "matchingComputerLoop path (computers p) = Some c"
      by (auto simp: findMatchingComputer_def split: if_splits)
    from matchingComputerLoop_Some[OF this] u W
    have d: "platform c = darwin" and inc: "includes_str path (macPattern short)" by auto
    from includes_str_drop[OF inc] obtain i where i: "prefix (macPattern short) (drop i path)"
      by blast
    have "off < i"
    proof (rule ccontr)
      assume "\<not> off < i"
      with M i have lt: "i < off" by (cases "i = off") auto
      with conv have off: "off = 2" and w: "match_here (winPattern long) path"
        by (auto simp: produced_under_def split: if_splits)
      from prefix_nth[OF i, of 0] have h: "0 < length (drop i path)" "drop i path ! 0 = 0x2F"
        by (simp_all add: macPattern_length macPattern_nth_0)
      then have pi: "path ! i = 0x2F" by simp
      from match_here_nth[OF w, of 0] have "ascii_letter (path ! 0)"
        by (simp add: winPattern_length winPattern_nth_0)
      moreover from match_here_nth[OF w, of 1] have "canonicalize 0x3A = canonicalize (path ! 1)"
        by (simp add: winPattern_length winPattern_nth_0)
      then have "path ! 1 = 0x3A" by (rule colon_canonicalize)
      moreover from lt off have "i = 0 \<or> i = 1" by auto
      ultimately show False using pi by (auto simp: ascii_letter_def)
    qed
    with d i show ?thesis by blast
  qed
  from W M C show ?thesis by blast
qed

theorem shorter_username_not_matched_at_root_witness:
  "produced_under (js ''alice'') (js ''/Users/alice/Users/al/cat.png'') 0 \<and>
   produced_under (js ''alice'') (js ''C:/Users/alice/img/cat.png'') 2 \<and>
   strict_sublist (js ''al'') (js ''alice'') \<and>
   \<not> match_here (winPattern (js ''al'')) (js ''C:/Users/alice/img/cat.png'') \<and>
   \<not> prefix (macPattern (js ''al'')) (drop 2 (js ''C:/Users/alice/img/cat.png'')) \<and>
   \<not> prefix (macPattern (js ''al'')) (drop 0 (js ''/Users/alice/Users/al/cat.png'')) \<and>
   findMatchingComputer
     (plugin_on darwin (js ''/Users/alice/vault'')
        [mac_profile (js ''1'') (js ''al'') [], mac_profile (js ''2'') (js ''alice'') []])
     (js ''/Users/alice/Users/al/cat.png'') = Some (mac_profile (js ''1'') (js ''al'') []) \<and>
   (\<exists>i. 0 < i \<and> prefix (macPattern (js ''al'')) (drop i (js ''/Users/alice/Users/al/cat.png'')))"
proof -
  let ?p = "plugin_on darwin (js ''/Users/alice/vault'')
              [mac_profile (js ''1'') (js ''al'') [], mac_profile (js ''2'') (js ''alice'') []]"
  let ?c = "mac_profile (js ''1'') (js ''al'') []"
  have m: "produced_under (js ''alice'') (js ''/Users/alice/Users/al/cat.png'') 0"
    and w: "produced_under (js ''alice'') (js ''C:/Users/alice/img/cat.png'') 2"
    by (simp_all add: produced_under_def eval_defs)
  have "js ''alice'' = [] @ js ''al'' @ js ''ice''" by (simp add: js_def)
  then have "sublist (js ''al'') (js ''alice'')" unfolding sublist_def by blast
  moreover have "js ''al'' \<noteq> js ''alice''" by (simp add: js_def)
  ultimately have sub: "strict_sublist (js ''al'') (js ''alice'')"
    by (simp add: strict_sublist_def)
  have nosep: "list_all (\<lambda>c. \<not> separator c) (js ''alice'')"
    by (simp add: js_def separator_def)
  have lit: "regex_literal (js ''al'')"
    by (simp add: js_def regex_literal_def)
  have f: "findMatchingComputer ?p (js ''/Users/alice/Users/al/cat.png'') = Some ?c"
    by (simp add: eval_defs)
  have u: "username ?c = js ''al''" by (simp add: mac_profile_def)
  from shorter_username_not_matched_at_root[OF m sub nosep lit, of ?p ?c]
       shorter_username_not_matched_at_root[OF w sub nosep lit, of ?p ?c] f u m w sub
  show ?thesis by blast
qed

text \<open>The claim as the specification words it fails when the pattern of the shorter
  name occurs in the rest of the path and its profile is registered first.\<close>

theorem substring_username_counterexample:
  "prefix (macRoot (js ''alice'') []) (js ''/Users/alice/Users/al/cat.png'') \<and>
   findMatchingComputer
     (plugin_on darwin (js ''/Users/alice/vault'')
        [mac_profile (js ''1'') (js ''al'') [], mac_profile (js ''2'') (js ''alice'') []])
     (js ''/Users/alice/Users/al/cat.png'') = Some (mac_profile (js ''1'') (js ''al'') [])"
  by (simp add: eval_defs)

section \<open>Encoding and decoding a path\<close>


































end
